theory Spec2Isabelle
  imports Main "HOL-Library.Sublist"
begin

section \<open>Go library functions used by the file editor\<close>

text \<open>
  Go strings are byte sequences; they are modelled as \<open>string\<close> (a list of 8-bit
  characters). The functions of this section belong to Go's standard library
  (\<open>strings\<close>, \<open>fmt\<close>), not to the repository; they are written after the library's
  documentation and source so that the repository's code can call them.
\<close>

text \<open>
  \<open>strings.Index(s, substr)\<close>: the index of the first instance of \<open>substr\<close> in \<open>s\<close>;
  Go's \<open>-1\<close> is \<open>None\<close>.
\<close>

fun strings_Index :: "string \<Rightarrow> string \<Rightarrow> nat option" where
  "strings_Index [] substr = (if substr = [] then Some 0 else None)"
| "strings_Index (c # s) substr =
     (if prefix substr (c # s) then Some 0 else map_option Suc (strings_Index s substr))"

lemma strings_Index_Some_nonempty:
  "strings_Index s substr = Some i \<Longrightarrow> substr \<noteq> [] \<Longrightarrow> s \<noteq> []"
  by (cases s) auto

text \<open>
  \<open>strings.Count(s, substr)\<close>: the number of non-overlapping instances of \<open>substr\<close> in
  \<open>s\<close>, found by repeated \<open>Index\<close> on the rest of the string. For an empty \<open>substr\<close>
  Go returns the number of runes plus one; the byte count used here agrees with it on
  ASCII text, and the file editor never calls \<open>Count\<close> with an empty \<open>substr\<close>.
\<close>

function strings_Count :: "string \<Rightarrow> string \<Rightarrow> nat" where
  "strings_Count s substr =
     (if substr = [] then length s + 1
      else (case strings_Index s substr of
              None \<Rightarrow> 0
            | Some i \<Rightarrow> Suc (strings_Count (drop (i + length substr) s) substr)))"
  by pat_completeness auto
termination
proof (relation "measure (\<lambda>(s, substr). length s)")
  show "wf (measure (\<lambda>(s, substr). length s))" by simp
next
  fix s substr :: string and i
  assume "substr \<noteq> []" and "strings_Index s substr = Some i"
  then have "s \<noteq> []" by (rule strings_Index_Some_nonempty[rotated])
  with \<open>substr \<noteq> []\<close>
  show "((drop (i + length substr) s, substr), (s, substr)) \<in> measure (\<lambda>(s, substr). length s)"
    by (cases substr) auto
qed

declare strings_Count.simps [simp del]

text \<open>
  \<open>strings.ReplaceAll(s, old, new)\<close>: a copy of \<open>s\<close> with all non-overlapping instances
  of \<open>old\<close> replaced by \<open>new\<close>: the library copies the text before each instance found by
  \<open>Index\<close>, then \<open>new\<close>, and continues behind the instance. For an empty \<open>old\<close> Go
  inserts \<open>new\<close> before every rune and at the end; the byte-wise version here agrees
  with it on ASCII text, and the file editor never calls it with an empty \<open>old\<close>.
\<close>

function strings_ReplaceAll :: "string \<Rightarrow> string \<Rightarrow> string \<Rightarrow> string" where
  "strings_ReplaceAll s old new =
     (if old = [] then concat (map (\<lambda>c. new @ [c]) s) @ new
      else (case strings_Index s old of
              None \<Rightarrow> s
            | Some i \<Rightarrow> take i s @ new @ strings_ReplaceAll (drop (i + length old) s) old new))"
  by pat_completeness auto
termination
proof (relation "measure (\<lambda>(s, old, new). length s)")
  show "wf (measure (\<lambda>(s, old, new). length s))" by simp
next
  fix s old new :: string and i
  assume "old \<noteq> []" and "strings_Index s old = Some i"
  then have "s \<noteq> []" by (rule strings_Index_Some_nonempty[rotated])
  with \<open>old \<noteq> []\<close>
  show "((drop (i + length old) s, old, new), (s, old, new)) \<in> measure (\<lambda>(s, old, new). length s)"
    by (cases old) auto
qed

declare strings_ReplaceAll.simps [simp del]

text \<open>
  \<open>strings.Split(s, sep)\<close>: the substrings between the instances of \<open>sep\<close>; a string
  without \<open>sep\<close> is the one-element list. (For an empty \<open>sep\<close> Go splits after every
  rune; the file editor only splits at the newline.)
\<close>

function strings_Split :: "string \<Rightarrow> string \<Rightarrow> string list" where
  "strings_Split s sep =
     (if sep = [] then map (\<lambda>c. [c]) s
      else (case strings_Index s sep of
              None \<Rightarrow> [s]
            | Some i \<Rightarrow> take i s # strings_Split (drop (i + length sep) s) sep))"
  by pat_completeness auto
termination
proof (relation "measure (\<lambda>(s, sep). length s)")
  show "wf (measure (\<lambda>(s, sep). length s))" by simp
next
  fix s sep :: string and i
  assume "sep \<noteq> []" and "strings_Index s sep = Some i"
  then have "s \<noteq> []" by (rule strings_Index_Some_nonempty[rotated])
  with \<open>sep \<noteq> []\<close>
  show "((drop (i + length sep) s, sep), (s, sep)) \<in> measure (\<lambda>(s, sep). length s)"
    by (cases sep) auto
qed

declare strings_Split.simps [simp del]

text \<open>\<open>strings.Join(elems, sep)\<close>: the elements with \<open>sep\<close> between them.\<close>

fun strings_Join :: "string list \<Rightarrow> string \<Rightarrow> string" where
  "strings_Join [] sep = []"
| "strings_Join [x] sep = x"
| "strings_Join (x # y # zs) sep = x @ sep @ strings_Join (y # zs) sep"

text \<open>The verb \<open>%d\<close> of \<open>fmt.Sprintf\<close>: an integer in decimal.\<close>

fun decimal :: "nat \<Rightarrow> string" where
  "decimal n =
     (if n < 10 then [''0123456789'' ! n]
      else decimal (n div 10) @ [''0123456789'' ! (n mod 10)])"

declare decimal.simps [simp del]

definition fmt_d :: "int \<Rightarrow> string" where
  "fmt_d i = (if i < 0 then CHR ''-'' # decimal (nat (- i)) else decimal (nat i))"

section \<open>The file system\<close>

text \<open>
  The file editor reaches the disk through \<open>os.Stat\<close>, \<open>os.MkdirAll\<close>, \<open>os.ReadFile\<close>
  and \<open>os.WriteFile\<close>. The disk is a record of the regular files (path to content) and
  of the directories. \<open>MkdirAll\<close> and \<open>WriteFile\<close> are taken to succeed (no permission
  or disk-space failures), and \<open>MkdirAll\<close> records the directory it is asked for, not
  its ancestors. \<open>ReadFile\<close> fails on a path that is not a regular file.
  \<open>os_Stat\<close> is whether \<open>os.Stat\<close> returns a nil error; the code reads the other case
  as "does not exist".
  \<open>path.Dir\<close> belongs to the Go library; it is the parameter \<open>Dir\<close> of the functions
  that call it.
\<close>

record filesystem =
  files :: "string \<rightharpoonup> string"
  dirs :: "string set"

type_synonym error = string

definition os_Stat :: "filesystem \<Rightarrow> string \<Rightarrow> bool" where
  \<comment> \<open>whether \<open>os.Stat\<close> returns a nil error: the path names a file or a directory\<close>
  "os_Stat fs p \<longleftrightarrow> files fs p \<noteq> None \<or> p \<in> dirs fs"

definition os_MkdirAll :: "filesystem \<Rightarrow> string \<Rightarrow> filesystem" where
  "os_MkdirAll fs d = fs\<lparr>dirs := insert d (dirs fs)\<rparr>"

definition os_WriteFile :: "filesystem \<Rightarrow> string \<Rightarrow> string \<Rightarrow> filesystem" where
  "os_WriteFile fs p data = fs\<lparr>files := (files fs)(p \<mapsto> data)\<rparr>"

definition os_ReadFile :: "filesystem \<Rightarrow> string \<Rightarrow> error + string" where
  "os_ReadFile fs p =
     (case files fs p of
        Some data \<Rightarrow> Inr data
      | None \<Rightarrow>
          if p \<in> dirs fs then Inl (''read '' @ p @ '': is a directory'')
          else Inl (''open '' @ p @ '': no such file or directory''))"

section \<open>The file editor (\<open>file_editor\<close> tool)\<close>

text \<open>
  Every function returns Go's pair \<open>(string, error)\<close> as a sum (\<open>Inl\<close> the error
  message, \<open>Inr\<close> the result text) together with the file system it leaves behind.
\<close>

type_synonym outcome = "(error + string) \<times> filesystem"

definition createFile :: "(string \<Rightarrow> string) \<Rightarrow> filesystem \<Rightarrow> string \<Rightarrow> string \<Rightarrow> outcome" where
  "createFile Dir fs filePath content =
     (if os_Stat fs filePath
      then (Inr (''File '' @ filePath @
                 '' already exists. Use append, prepend, or replace modes to modify it.''), fs)
      else
        let dir = Dir filePath;
            fs1 = (if dir \<noteq> ''.'' then os_MkdirAll fs dir else fs);
            fs2 = os_WriteFile fs1 filePath content
        in (Inr (''Successfully created file '' @ filePath), fs2))"

definition ensureFileExists :: "(string \<Rightarrow> string) \<Rightarrow> filesystem \<Rightarrow> string \<Rightarrow> filesystem" where
  "ensureFileExists Dir fs filePath =
     (if \<not> os_Stat fs filePath
      then
        let dir = Dir filePath;
            fs1 = (if dir \<noteq> ''.'' then os_MkdirAll fs dir else fs)
        in os_WriteFile fs1 filePath []
      else fs)"

text \<open>
  The loop of \<open>replaceInFile\<close> for a positive limit: \<open>count\<close>, \<open>parts\<close> and
  \<open>remaining\<close> are the loop's variables, and the result is their value when the loop
  is left.
\<close>

function replace_loop ::
  "int \<Rightarrow> string \<Rightarrow> string \<Rightarrow> int \<Rightarrow> string list \<Rightarrow> string \<Rightarrow> int \<times> string list \<times> string" where
  "replace_loop limit oldStr newStr count parts remaining =
     (if count < limit
      then (case strings_Index remaining oldStr of
              None \<Rightarrow> (count, parts, remaining)
            | Some i \<Rightarrow>
                replace_loop limit oldStr newStr (count + 1)
                  (parts @ [take i remaining, newStr])
                  (drop (i + length oldStr) remaining))
      else (count, parts, remaining))"
  by pat_completeness auto
termination
  by (relation "measure (\<lambda>(limit, oldStr, newStr, count, parts, remaining). nat (limit - count))")
     auto

declare replace_loop.simps [simp del]

definition replaceInFile ::
  "(string \<Rightarrow> string) \<Rightarrow> filesystem \<Rightarrow> string \<Rightarrow> string \<Rightarrow> string \<Rightarrow> int \<Rightarrow> outcome" where
  "replaceInFile Dir fs filePath oldStr newStr limit =
     (if oldStr = [] then (Inl ''old_str cannot be empty'', fs)
      else if oldStr = newStr
      then (Inr ''No changes needed - old_str and new_str are identical'', fs)
      else
        let fs1 = ensureFileExists Dir fs filePath in
        (case os_ReadFile fs1 filePath of
           Inl e \<Rightarrow> (Inl (''failed to read file: '' @ e), fs1)
         | Inr fileContent \<Rightarrow>
             let (count, newContent) =
               (if limit > 0
                then
                  let (count, parts, remaining) =
                        replace_loop limit oldStr newStr 0 [] fileContent
                  in (if count > 0
                      then (count, strings_Join (parts @ [remaining]) [])
                      else (count, fileContent))
                else (int (strings_Count fileContent oldStr),
                      strings_ReplaceAll fileContent oldStr newStr))
             in
               if fileContent = newContent then (Inl ''old_str not found in file'', fs1)
               else (Inr (''Successfully replaced '' @ fmt_d count @ '' occurrence(s) in '' @ filePath),
                     os_WriteFile fs1 filePath newContent)))"

definition insertAtLine ::
  "(string \<Rightarrow> string) \<Rightarrow> filesystem \<Rightarrow> string \<Rightarrow> string \<Rightarrow> int \<Rightarrow> outcome" where
  "insertAtLine Dir fs filePath content lineNumber =
     (if lineNumber < 1 then (Inl ''line number must be at least 1'', fs)
      else
        let fs1 = ensureFileExists Dir fs filePath in
        (case os_ReadFile fs1 filePath of
           Inl e \<Rightarrow> (Inl (''failed to read file: '' @ e), fs1)
         | Inr existingContent \<Rightarrow>
             let lines = strings_Split existingContent [CHR 0x0A] in
             if lineNumber > int (length lines) + 1
             then (Inl (''line number '' @ fmt_d lineNumber @ '' exceeds file length ('' @
                        fmt_d (int (length lines)) @ '' lines)''), fs1)
             else
               let newLines =
                     (if lineNumber = 1 then [content] @ lines
                      else if lineNumber > int (length lines) then lines @ [content]
                      else take (nat (lineNumber - 1)) lines @ [content] @
                           drop (nat (lineNumber - 1)) lines);
                   newContent = strings_Join newLines [CHR 0x0A]
               in (Inr (''Successfully inserted content at line '' @ fmt_d lineNumber @
                        '' in '' @ filePath),
                   os_WriteFile fs1 filePath newContent)))"

section \<open>Go's \<open>regexp\<close> package\<close>

text \<open>
  The regular-expression engine is library code. It enters the model as a parameter: a
  record with the compiler of patterns (\<open>regexp.Compile\<close>), the list of the successive
  non-overlapping matches of a compiled expression in a text, each a pair of the start
  and the end offset (\<open>FindAllStringIndex\<close> with \<open>n = -1\<close>), and the expansion of a
  replacement template for one match of a text (\<open>Expand\<close>, which interprets \<open>$\<close>).
  The library's replacement functions are written over these three, as in
  \<open>regexp.go\<close>: they walk over the matches from left to right, copy the text between
  them and put the replacement in the place of each match. (The library skips an empty
  match directly behind the previous match, in \<open>replaceAll\<close> as in \<open>FindAll\<close>, so both
  see the same matches.)
\<close>

record 're regexp_pkg =
  Compile :: "string \<Rightarrow> error + 're"
  FindAllStringIndex :: "'re \<Rightarrow> string \<Rightarrow> (nat \<times> nat) list"
  Expand :: "'re \<Rightarrow> string \<Rightarrow> string \<Rightarrow> nat \<times> nat \<Rightarrow> string"

text \<open>
  \<open>replaceAll\<close>: \<open>lastMatchEnd\<close> is the end of the previous match; \<open>repl\<close> gives the
  replacement of a match and may update a state \<open>st\<close> (the variables a Go closure
  captures).
\<close>

fun regexp_replaceAll ::
  "string \<Rightarrow> nat \<Rightarrow> (nat \<times> nat) list \<Rightarrow> (nat \<times> nat \<Rightarrow> 's \<Rightarrow> string \<times> 's) \<Rightarrow> 's \<Rightarrow> string \<times> 's" where
  "regexp_replaceAll src lastMatchEnd [] repl st = (drop lastMatchEnd src, st)"
| "regexp_replaceAll src lastMatchEnd ((a, b) # ms) repl st =
     (let (r, st1) = repl (a, b) st;
          (rest, st2) = regexp_replaceAll src b ms repl st1
      in (take (a - lastMatchEnd) (drop lastMatchEnd src) @ r @ rest, st2))"

definition regexp_ReplaceAllString :: "'re regexp_pkg \<Rightarrow> 're \<Rightarrow> string \<Rightarrow> string \<Rightarrow> string" where
  "regexp_ReplaceAllString E re src repl =
     fst (regexp_replaceAll src 0 (FindAllStringIndex E re src)
            (\<lambda>m st. (Expand E re repl src m, st)) ())"

definition regexp_ReplaceAllStringFunc ::
  "'re regexp_pkg \<Rightarrow> 're \<Rightarrow> string \<Rightarrow> (string \<Rightarrow> 's \<Rightarrow> string \<times> 's) \<Rightarrow> 's \<Rightarrow> string \<times> 's" where
  "regexp_ReplaceAllStringFunc E re src repl st =
     regexp_replaceAll src 0 (FindAllStringIndex E re src)
       (\<lambda>(a, b). repl (take (b - a) (drop a src))) st"

definition regexp_FindAllString :: "'re regexp_pkg \<Rightarrow> 're \<Rightarrow> string \<Rightarrow> string list" where
  "regexp_FindAllString E re src =
     map (\<lambda>(a, b). take (b - a) (drop a src)) (FindAllStringIndex E re src)"

section \<open>The file editor, continued\<close>

text \<open>
  In \<open>regexReplaceInFile\<close> the closure given to \<open>ReplaceAllStringFunc\<close> captures the
  variable \<open>count\<close>; here it is the state the closure receives and returns.
\<close>

definition regexReplaceInFile ::
  "'re regexp_pkg \<Rightarrow> (string \<Rightarrow> string) \<Rightarrow> filesystem \<Rightarrow> string \<Rightarrow> string \<Rightarrow> string \<Rightarrow> int \<Rightarrow> outcome" where
  "regexReplaceInFile E Dir fs filePath pattern newStr limit =
     (if pattern = [] then (Inl ''pattern cannot be empty'', fs)
      else
        let fs1 = ensureFileExists Dir fs filePath in
        (case os_ReadFile fs1 filePath of
           Inl e \<Rightarrow> (Inl (''failed to read file: '' @ e), fs1)
         | Inr fileContent \<Rightarrow>
             (case Compile E pattern of
                Inl e \<Rightarrow> (Inl (''invalid regex pattern: '' @ e), fs1)
              | Inr regex \<Rightarrow>
                  let (newContent, count) =
                    (if limit > 0
                     then regexp_ReplaceAllStringFunc E regex fileContent
                            (\<lambda>match count.
                               if count < limit
                               then (regexp_ReplaceAllString E regex match newStr, count + 1)
                               else (match, count))
                            0
                     else (regexp_ReplaceAllString E regex fileContent newStr,
                           int (length (regexp_FindAllString E regex fileContent))))
                  in
                    if fileContent = newContent then (Inl ''pattern not matched in file'', fs1)
                    else (Inr (''Successfully replaced '' @ fmt_d count @
                               '' occurrence(s) in '' @ filePath),
                          os_WriteFile fs1 filePath newContent))))"

definition appendToFile :: "(string \<Rightarrow> string) \<Rightarrow> filesystem \<Rightarrow> string \<Rightarrow> string \<Rightarrow> outcome" where
  "appendToFile Dir fs filePath content =
     (let fs1 = ensureFileExists Dir fs filePath in
      case files fs1 filePath of
        None \<Rightarrow> (Inl (''failed to open file for appending: open '' @ filePath @
                       '': is a directory''), fs1)
      | Some existingContent \<Rightarrow>
          (Inr (''Successfully appended content to '' @ filePath),
           os_WriteFile fs1 filePath (existingContent @ content)))"

definition prependToFile :: "(string \<Rightarrow> string) \<Rightarrow> filesystem \<Rightarrow> string \<Rightarrow> string \<Rightarrow> outcome" where
  "prependToFile Dir fs filePath content =
     (let fs1 = ensureFileExists Dir fs filePath in
      case os_ReadFile fs1 filePath of
        Inl e \<Rightarrow> (Inl (''failed to read file: '' @ e), fs1)
      | Inr existingContent \<Rightarrow>
          (Inr (''Successfully prepended content to '' @ filePath),
           os_WriteFile fs1 filePath (content @ existingContent)))"

text \<open>
  The tool's input after \<open>json.Unmarshal\<close>: a missing field has Go's zero value (the
  empty string, 0). \<open>EditFileContent\<close> receives what \<open>json.Unmarshal\<close> returned: the
  error, or the input.
\<close>

record FileEditorInput =
  Path :: string
  Mode :: string
  OldStr :: string
  NewStr :: string
  Pattern :: string
  Content :: string
  LineNumber :: int
  Limit :: int

definition EditFileContent ::
  "'re regexp_pkg \<Rightarrow> (string \<Rightarrow> string) \<Rightarrow> filesystem \<Rightarrow> error + FileEditorInput \<Rightarrow> outcome" where
  "EditFileContent E Dir fs unmarshalled =
     (case unmarshalled of
        Inl e \<Rightarrow> (Inl (''failed to parse input: '' @ e), fs)
      | Inr editFileInput \<Rightarrow>
          if Path editFileInput = [] then (Inl ''path cannot be empty'', fs)
          else if Mode editFileInput = ''create''
          then (if Content editFileInput = []
                then (Inl ''cannot create an empty file, content is required'', fs)
                else createFile Dir fs (Path editFileInput) (Content editFileInput))
          else if Mode editFileInput = ''replace''
          then replaceInFile Dir fs (Path editFileInput) (OldStr editFileInput)
                 (NewStr editFileInput) (Limit editFileInput)
          else if Mode editFileInput = ''regex_replace''
          then regexReplaceInFile E Dir fs (Path editFileInput) (Pattern editFileInput)
                 (NewStr editFileInput) (Limit editFileInput)
          else if Mode editFileInput = ''append''
          then appendToFile Dir fs (Path editFileInput) (Content editFileInput)
          else if Mode editFileInput = ''prepend''
          then prependToFile Dir fs (Path editFileInput) (Content editFileInput)
          else if Mode editFileInput = ''insert_at_line''
          then insertAtLine Dir fs (Path editFileInput) (Content editFileInput)
                 (LineNumber editFileInput)
          else (Inl (''invalid mode: '' @ Mode editFileInput), fs))"

section \<open>The agent (\<open>internal/agent/agent.go\<close>)\<close>

text \<open>
  \<open>LoopProtection\<close> is the struct of the same name. Go's \<open>int\<close> counters are
  unbounded integers here: a 64-bit counter that grows by one per tool use does not
  overflow in a session. A \<open>time.Time\<close> is an integer number of nanoseconds and a
  \<open>time.Duration\<close> is their difference. The code compares
  \<open>time.Since(...).Minutes()\<close> with 1; the floating-point value is at most 1 exactly when
  the duration is at most \<open>Minute\<close> nanoseconds, which is the comparison used here.
\<close>

record LoopProtection =
  MaxConsecutiveToolUses :: int
  MaxToolUsesPerMinute :: int
  MaxSessionDuration :: int
  MaxSameToolCalls :: int
  ConsecutiveToolUses :: int
  LastToolName :: string
  SameToolCallCount :: int
  ToolUseStartTime :: int
  ToolUseCount :: int
  SessionStartTime :: int

definition Minute :: int where
  "Minute = 60000000000"

text \<open>\<open>NewLoopProtection\<close>; its two arguments are the two readings of \<open>time.Now()\<close>.\<close>

definition NewLoopProtection :: "int \<Rightarrow> int \<Rightarrow> LoopProtection" where
  "NewLoopProtection now1 now2 =
     \<lparr>MaxConsecutiveToolUses = 15,
      MaxToolUsesPerMinute = 30,
      MaxSessionDuration = 30 * Minute,
      MaxSameToolCalls = 5,
      ConsecutiveToolUses = 0,
      LastToolName = [],
      SameToolCallCount = 0,
      ToolUseStartTime = now1,
      ToolUseCount = 0,
      SessionStartTime = now2\<rparr>"

text \<open>
  The content blocks of a message: text, a tool invocation (id, name, raw input), a tool
  result (id of the invocation, content, error flag), and any other block type, which
  \<open>processToolUsages\<close> skips. A conversation is a list of messages, each with its role;
  \<open>anthropic.NewUserMessage\<close> of some blocks is \<open>MessageParam User\<close> of them.
\<close>

datatype content_block =
    TextBlock string
  | ToolUseBlock string string string
  | ToolResultBlock string string bool
  | OtherBlock string

datatype role = User | Assistant

datatype message_param = MessageParam role "content_block list"

text \<open>
  A tool handler may change the world outside the agent (files, processes); \<open>'w\<close> is the
  type of that world, and \<open>Function\<close> takes the raw input and the world and returns Go's
  \<open>(string, error)\<close> with the new world.
\<close>

record 'w ToolDefinition =
  Name :: string
  Description :: string
  Function :: "string \<Rightarrow> 'w \<Rightarrow> (error + string) \<times> 'w"

text \<open>
  The three errors \<open>processToolUsages\<close> builds with \<open>fmt.Errorf\<close>, with the numbers their
  messages print: the consecutive count; the count in the rate window and the elapsed
  time; the tool name and its streak.
\<close>

datatype loop_error =
    TooManyConsecutive int
  | RateLimitExceeded int int
  | TooManySameTool string int

text \<open>
  What the agent does not compute itself comes from its surroundings \<open>'w env\<close>: the
  clock (\<open>clock n\<close> is the \<open>n\<close>-th reading), the user (\<open>getUserMessage n\<close> is the result
  of the \<open>n\<close>-th call of the function of that name), the completion engine (\<open>client n\<close>
  maps the conversation of the \<open>n\<close>-th request to an error or to the content of the
  response) and the registered tools. All four are arbitrary, so a statement about every
  \<open>env\<close> is a statement about every behaviour of user, engine, clock and tools.

  The \<open>state\<close> holds the variables of \<open>Run\<close> and the fields of the agent that change
  (\<open>loopProtection\<close>), the world of the tools, the number of clock readings, user reads
  and requests made so far, and a \<open>trace\<close> that records, newest first, the events the
  claims speak about: the reset of the counters in \<open>Run\<close>, a call of
  \<open>getUserMessage\<close> (with its \<open>ok\<close>), the start of the processing of a tool invocation
  (where the counters are incremented), a denial, and a call of \<open>executeTool\<close>. The
  trace is not read by any function of the model.
\<close>

datatype event =
    EvReset
  | EvUserRead bool
  | EvAttempt string string
  | EvDenied loop_error
  | EvExecuted string string

record 'w env =
  clock :: "nat \<Rightarrow> int"
  getUserMessage :: "nat \<Rightarrow> string \<times> bool"
  client :: "nat \<Rightarrow> message_param list \<Rightarrow> error + content_block list"
  tools :: "'w ToolDefinition list"

datatype status = Running | Returned "error option"

record 'w state =
  loopProtection :: LoopProtection
  conversation :: "message_param list"
  readUserInput :: bool
  status :: status
  world :: 'w
  ticks :: nat
  reads :: nat
  calls :: nat
  trace :: "event list"

text \<open>
  The checks at the start of the \<open>tool_use\<close> case of \<open>processToolUsages\<close> (lines 171 to
  220), on the \<open>LoopProtection\<close> alone: \<open>now1\<close> is the clock reading of \<open>time.Since\<close>,
  \<open>now2\<close> the one of \<open>time.Now()\<close> where the rate window is restarted. The result is the
  error of the \<open>return true, err\<close> taken, if any, and the updated counters.
\<close>

definition loopProtectionCheck ::
  "LoopProtection \<Rightarrow> int \<Rightarrow> int \<Rightarrow> string \<Rightarrow> loop_error option \<times> LoopProtection" where
  "loopProtectionCheck lp now1 now2 name =
     (let lp1 = lp\<lparr>ConsecutiveToolUses := ConsecutiveToolUses lp + 1,
                   ToolUseCount := ToolUseCount lp + 1\<rparr>
      in
      if ConsecutiveToolUses lp1 > MaxConsecutiveToolUses lp1
      then (Some (TooManyConsecutive (ConsecutiveToolUses lp1)), lp1)
      else
        let elapsed = now1 - ToolUseStartTime lp1 in
        if elapsed \<le> Minute \<and> ToolUseCount lp1 \<ge> MaxToolUsesPerMinute lp1
        then (Some (RateLimitExceeded (ToolUseCount lp1) elapsed), lp1)
        else
          let lp2 = (if elapsed > Minute
                     then lp1\<lparr>ToolUseStartTime := now2, ToolUseCount := 1\<rparr>
                     else lp1)
          in
          if LastToolName lp2 = name
          then
            let lp3 = lp2\<lparr>SameToolCallCount := SameToolCallCount lp2 + 1\<rparr> in
            if SameToolCallCount lp3 \<ge> MaxSameToolCalls lp3
            then (Some (TooManySameTool name (SameToolCallCount lp3)), lp3)
            else (None, lp3)
          else (None, lp2\<lparr>LastToolName := name, SameToolCallCount := 1\<rparr>))"

definition findTool :: "'w ToolDefinition list \<Rightarrow> string \<Rightarrow> 'w ToolDefinition option" where
  "findTool ts name = find (\<lambda>tool. Name tool = name) ts"

definition executeTool ::
  "'w ToolDefinition list \<Rightarrow> 'w \<Rightarrow> string \<Rightarrow> string \<Rightarrow> string \<Rightarrow> content_block \<times> 'w" where
  "executeTool ts w ident name input =
     (case findTool ts name of
        None \<Rightarrow> (ToolResultBlock ident ''tool not found'' True, w)
      | Some toolDef \<Rightarrow>
          (case Function toolDef input w of
             (Inl err, w') \<Rightarrow> (ToolResultBlock ident err True, w')
           | (Inr response, w') \<Rightarrow> (ToolResultBlock ident response False, w')))"

text \<open>
  The loop of \<open>processToolUsages\<close> over \<open>message.Content\<close>, with its variables
  \<open>toolResults\<close> and \<open>hasToolUses\<close>. A denial leaves the loop at once. Every tool
  invocation takes two clock readings (the second is unused unless the rate window is
  restarted). Printing a text block has no effect on the state.
\<close>

fun processContent ::
  "'w env \<Rightarrow> content_block list \<Rightarrow> content_block list \<Rightarrow> bool \<Rightarrow> 'w state \<Rightarrow>
     loop_error option \<times> content_block list \<times> bool \<times> 'w state" where
  "processContent e [] toolResults hasToolUses st = (None, toolResults, hasToolUses, st)"
| "processContent e (ToolUseBlock ident name input # rest) toolResults hasToolUses st =
     (case loopProtectionCheck (loopProtection st) (clock e (ticks st)) (clock e (Suc (ticks st))) name of
        (Some err, lp) \<Rightarrow>
          (Some err, toolResults, True,
           st\<lparr>loopProtection := lp, ticks := ticks st + 2,
              trace := EvDenied err # EvAttempt ident name # trace st\<rparr>)
      | (None, lp) \<Rightarrow>
          (case executeTool (tools e) (world st) ident name input of
             (result, w) \<Rightarrow>
               processContent e rest (toolResults @ [result]) True
                 (st\<lparr>loopProtection := lp, ticks := ticks st + 2, world := w,
                    trace := EvExecuted ident name # EvAttempt ident name # trace st\<rparr>)))"
| "processContent e (TextBlock text # rest) toolResults hasToolUses st =
     processContent e rest toolResults hasToolUses st"
| "processContent e (ToolResultBlock ident content isError # rest) toolResults hasToolUses st =
     processContent e rest toolResults hasToolUses st"
| "processContent e (OtherBlock blockType # rest) toolResults hasToolUses st =
     processContent e rest toolResults hasToolUses st"

definition processToolUsages ::
  "'w env \<Rightarrow> content_block list \<Rightarrow> 'w state \<Rightarrow> (bool \<times> loop_error option) \<times> 'w state" where
  "processToolUsages e message st =
     (case processContent e message [] False st of
        (Some err, toolResults, hasToolUses, st1) \<Rightarrow> ((True, Some err), st1)
      | (None, toolResults, hasToolUses, st1) \<Rightarrow>
          if \<not> hasToolUses then ((True, None), st1)
          else ((False, None),
                st1\<lparr>conversation := conversation st1 @ [MessageParam User toolResults]\<rparr>))"

definition readUserInputToConversation :: "'w env \<Rightarrow> 'w state \<Rightarrow> bool \<times> 'w state" where
  "readUserInputToConversation e st =
     (case getUserMessage e (reads st) of
        (userInput, ok) \<Rightarrow>
          let st1 = st\<lparr>reads := Suc (reads st), trace := EvUserRead ok # trace st\<rparr> in
          if \<not> ok then (False, st1)
          else (True, st1\<lparr>conversation :=
                           conversation st1 @ [MessageParam User [TextBlock userInput]]\<rparr>))"

definition generateResponse :: "'w env \<Rightarrow> 'w state \<Rightarrow> (error + content_block list) \<times> 'w state" where
  "generateResponse e st = (client e (calls st) (conversation st), st\<lparr>calls := Suc (calls st)\<rparr>)"

text \<open>
  \<open>Run\<close>: \<open>Run_start\<close> is the state before the loop, \<open>Run_iteration\<close> one pass through
  the body of the \<open>for\<close> loop (on a state that has left the loop it does nothing), and
  \<open>Run e lp w n\<close> the state after \<open>n\<close> passes. The loop may run forever, so the claims
  are stated for the state after every number of passes. \<open>Returned None\<close> is
  \<open>return nil\<close> after a \<open>break\<close>, \<open>Returned (Some err)\<close> is \<open>return err\<close>.
\<close>

definition Run_start :: "'w env \<Rightarrow> LoopProtection \<Rightarrow> 'w \<Rightarrow> 'w state" where
  "Run_start e lp w =
     \<lparr>loopProtection = lp\<lparr>SessionStartTime := clock e 0\<rparr>,
      conversation = [],
      readUserInput = True,
      status = Running,
      world = w,
      ticks = 1, reads = 0, calls = 0, trace = []\<rparr>"

definition Run_iteration :: "'w env \<Rightarrow> 'w state \<Rightarrow> 'w state" where
  "Run_iteration e st =
     (if status st \<noteq> Running then st
      else
        let st1 = st\<lparr>ticks := Suc (ticks st)\<rparr> in
        if clock e (ticks st) - SessionStartTime (loopProtection st) >
           MaxSessionDuration (loopProtection st)
        then st1\<lparr>status := Returned None\<rparr>
        else
          let (ok, st2) =
                (if readUserInput st1
                 then readUserInputToConversation e
                        (st1\<lparr>loopProtection :=
                               (loopProtection st1)\<lparr>ConsecutiveToolUses := 0,
                                  LastToolName := [], SameToolCallCount := 0\<rparr>,
                             trace := EvReset # trace st1\<rparr>)
                 else (True, st1))
          in
          if \<not> ok then st2\<lparr>status := Returned None\<rparr>
          else
            (case generateResponse e st2 of
               (Inl err, st3) \<Rightarrow> st3\<lparr>status := Returned (Some err)\<rparr>
             | (Inr message, st3) \<Rightarrow>
                 let st4 = st3\<lparr>conversation :=
                                 conversation st3 @ [MessageParam Assistant message]\<rparr>
                 in (case processToolUsages e message st4 of
                       ((next, err), st5) \<Rightarrow> st5\<lparr>readUserInput := next\<rparr>)))"

definition Run :: "'w env \<Rightarrow> LoopProtection \<Rightarrow> 'w \<Rightarrow> nat \<Rightarrow> 'w state" where
  "Run e lp w n = (Run_iteration e ^^ n) (Run_start e lp w)"

section \<open>The vocabulary of the replacement claims\<close>

text \<open>
  The specification speaks of the non-overlapping occurrences of \<open>old_str\<close>, scanning
  from left to right. \<open>join_with ps x rest\<close> is the text
  \<open>p\<^sub>1 x p\<^sub>2 x \<dots> p\<^sub>k x rest\<close>, and \<open>first_occurrence old p\<close> says that in
  \<open>p @ old @ \<dots>\<close> the instance of \<open>old\<close> behind \<open>p\<close> is the first one: no instance
  starts inside \<open>p\<close>. So a text \<open>join_with ps old rest\<close> whose pieces all satisfy
  \<open>first_occurrence old\<close> shows the first \<open>length ps\<close> non-overlapping occurrences of
  \<open>old\<close> from the left, and \<open>join_with ps new rest\<close> is the same text with exactly
  these occurrences replaced by \<open>new\<close>.
\<close>

definition join_with :: "string list \<Rightarrow> string \<Rightarrow> string \<Rightarrow> string" where
  "join_with ps x rest = concat (map (\<lambda>p. p @ x) ps) @ rest"

definition first_occurrence :: "string \<Rightarrow> string \<Rightarrow> bool" where
  "first_occurrence old p \<longleftrightarrow> \<not> sublist old (p @ butlast old)"

section \<open>The vocabulary of the agent claims\<close>

text \<open>
  Traces are newest first. \<open>attempts\<close> counts the tool invocations whose processing
  began; \<open>since_reset\<close> and \<open>since_read\<close> are the events after the last reset and
  after the last user read. \<open>resets_match_reads\<close> says that every user read directly
  follows a reset and every reset is directly followed by a user read.
  \<open>tool_use_ids\<close> lists the ids of the tool invocations of a message in order, and
  \<open>result_id\<close> is the id a tool result carries.
\<close>

fun is_attempt :: "event \<Rightarrow> bool" where
  "is_attempt (EvAttempt ident name) = True"
| "is_attempt ev = False"

fun is_read :: "event \<Rightarrow> bool" where
  "is_read (EvUserRead ok) = True"
| "is_read ev = False"

definition attempts :: "event list \<Rightarrow> nat" where
  "attempts evs = length (filter is_attempt evs)"

definition since_reset :: "event list \<Rightarrow> event list" where
  "since_reset evs = takeWhile (\<lambda>ev. ev \<noteq> EvReset) evs"

definition since_read :: "event list \<Rightarrow> event list" where
  "since_read evs = takeWhile (\<lambda>ev. \<not> is_read ev) evs"

fun resets_match_reads :: "event list \<Rightarrow> bool" where
  "resets_match_reads [] = True"
| "resets_match_reads (EvUserRead ok # EvReset # evs) = resets_match_reads evs"
| "resets_match_reads (EvUserRead ok # evs) = False"
| "resets_match_reads (EvReset # evs) = False"
| "resets_match_reads (ev # evs) = resets_match_reads evs"

fun tool_use_ids :: "content_block list \<Rightarrow> string list" where
  "tool_use_ids [] = []"
| "tool_use_ids (ToolUseBlock ident name input # rest) = ident # tool_use_ids rest"
| "tool_use_ids (other # rest) = tool_use_ids rest"

fun result_id :: "content_block \<Rightarrow> string option" where
  "result_id (ToolResultBlock ident content isError) = Some ident"
| "result_id other = None"

text \<open>
  For the same-tool streak: \<open>allowed_calls lp cs\<close> feeds the invocations \<open>cs\<close> (each
  with its two clock readings and the tool name) through \<open>loopProtectionCheck\<close> one
  after the other and gives the final counters if none was denied. \<open>streak names\<close> is
  the number of immediate repetitions of the last name at the end of \<open>names\<close>, counting
  the last call itself. \<open>reaches_same_tool_check\<close> holds of a result that is not the
  consecutive or the rate denial, which return before the streak is looked at.
\<close>

fun allowed_calls :: "LoopProtection \<Rightarrow> (int \<times> int \<times> string) list \<Rightarrow> LoopProtection option" where
  "allowed_calls lp [] = Some lp"
| "allowed_calls lp ((now1, now2, name) # cs) =
     (case loopProtectionCheck lp now1 now2 name of
        (None, lp') \<Rightarrow> allowed_calls lp' cs
      | (Some err, lp') \<Rightarrow> None)"

definition streak :: "string list \<Rightarrow> nat" where
  "streak names =
     (case rev names of [] \<Rightarrow> 0 | n # earlier \<Rightarrow> Suc (length (takeWhile (\<lambda>x. x = n) earlier)))"

fun reaches_same_tool_check :: "loop_error option \<Rightarrow> bool" where
  "reaches_same_tool_check (Some (TooManyConsecutive k)) = False"
| "reaches_same_tool_check (Some (RateLimitExceeded k d)) = False"
| "reaches_same_tool_check res = True"

section \<open>Concrete inputs for the examples\<close>

text \<open>
  The examples below run the model on concrete inputs, so they need a concrete regular
  expression engine and a concrete \<open>path.Dir\<close>. The engine here covers a fragment of
  Go's syntax only: literal characters, \<open>.\<close>, \<open>\d\<close> and the greedy repetitions \<open>*\<close>,
  \<open>+\<close>, \<open>?\<close> of one of these; it rejects every other pattern, which Go may accept.
  Matching is leftmost-first as in Go: at the first position where the expression
  matches, a repetition takes as many characters as the rest of the expression allows.
  \<open>rx_allMatches\<close> follows the loop of \<open>regexp.allMatches\<close> (an empty match directly
  behind the previous match is skipped), advancing by bytes. Replacement templates are
  copied; \<open>$\<close> is not interpreted. The properties stated for every engine do not depend
  on this fragment.
\<close>

datatype rx_atom = Lit char | Digit | AnyChar

datatype rx_rep = Once | Star | Plus | Quest

type_synonym rx = "(rx_atom \<times> rx_rep) list"

fun atom_matches :: "rx_atom \<Rightarrow> char \<Rightarrow> bool" where
  "atom_matches (Lit c) d \<longleftrightarrow> d = c"
| "atom_matches Digit d \<longleftrightarrow> d \<in> set ''0123456789''"
| "atom_matches AnyChar d \<longleftrightarrow> d \<noteq> CHR 0x0A"

fun rx_parse :: "string \<Rightarrow> rx \<Rightarrow> error + rx" where
  "rx_parse [] acc = Inr (rev acc)"
| "rx_parse (c # cs) acc =
     (if c = CHR 0x5C
      then (case cs of
              [] \<Rightarrow> Inl ''trailing backslash at end of expression''
            | e # r \<Rightarrow> if e = CHR ''d'' then rx_parse r ((Digit, Once) # acc)
                       else Inl ''escape outside the modelled fragment'')
      else if c \<in> set ''*+?''
      then (case acc of
              (a, Once) # acc' \<Rightarrow>
                rx_parse cs ((a, if c = CHR ''*'' then Star else if c = CHR ''+'' then Plus else Quest)
                             # acc')
            | _ \<Rightarrow> Inl ''repetition outside the modelled fragment'')
      else if c = CHR ''.'' then rx_parse cs ((AnyChar, Once) # acc)
      else if c \<in> set ''()[]{}|^$'' then Inl ''operator outside the modelled fragment''
      else rx_parse cs ((Lit c, Once) # acc))"

fun first_some :: "'a option list \<Rightarrow> 'a option" where
  "first_some [] = None"
| "first_some (None # xs) = first_some xs"
| "first_some (Some x # xs) = Some x"

fun rx_match :: "rx \<Rightarrow> string \<Rightarrow> nat option" where
  "rx_match [] s = Some 0"
| "rx_match ((a, Once) # r) s =
     (case s of
        [] \<Rightarrow> None
      | c # cs \<Rightarrow> if atom_matches a c then map_option Suc (rx_match r cs) else None)"
| "rx_match ((a, Quest) # r) s =
     first_some (map (\<lambda>k. map_option ((+) k) (rx_match r (drop k s)))
       (rev [0..<Suc (min 1 (length (takeWhile (atom_matches a) s)))]))"
| "rx_match ((a, Star) # r) s =
     first_some (map (\<lambda>k. map_option ((+) k) (rx_match r (drop k s)))
       (rev [0..<Suc (length (takeWhile (atom_matches a) s))]))"
| "rx_match ((a, Plus) # r) s =
     first_some (map (\<lambda>k. map_option ((+) k) (rx_match r (drop k s)))
       (rev [1..<Suc (length (takeWhile (atom_matches a) s))]))"

fun rx_search :: "rx \<Rightarrow> string \<Rightarrow> nat \<Rightarrow> (nat \<times> nat) option" where
  "rx_search r [] pos = map_option (\<lambda>n. (pos, pos + n)) (rx_match r [])"
| "rx_search r (c # s) pos =
     (case rx_match r (c # s) of
        Some n \<Rightarrow> Some (pos, pos + n)
      | None \<Rightarrow> rx_search r s (Suc pos))"

lemma rx_search_bounds: "rx_search r s pos = Some (a, b) \<Longrightarrow> pos \<le> a \<and> a \<le> b"
  by (induction s arbitrary: pos) (auto split: option.splits dest: Suc_leD)

function rx_allMatches :: "rx \<Rightarrow> string \<Rightarrow> nat \<Rightarrow> nat option \<Rightarrow> (nat \<times> nat) list" where
  "rx_allMatches r s pos prevMatchEnd =
     (if pos > length s then []
      else (case rx_search r (drop pos s) pos of
              None \<Rightarrow> []
            | Some (a, b) \<Rightarrow>
                (if b = pos \<and> Some a = prevMatchEnd then [] else [(a, b)]) @
                rx_allMatches r s (if b = pos then pos + 1 else b) (Some b)))"
  by pat_completeness auto
termination
proof (relation "measure (\<lambda>(r, s, pos, prevMatchEnd). Suc (length s) - pos)")
  show "wf (measure (\<lambda>(r, s, pos, prevMatchEnd). Suc (length s) - pos))" by simp
next
  fix r :: rx and s :: string and pos :: nat and prevMatchEnd :: "nat option" and x2 a b
  assume "\<not> length s < pos" and "rx_search r (drop pos s) pos = Some x2" and "(a, b) = x2"
  then have "pos \<le> b" using rx_search_bounds[of r "drop pos s" pos a b] by auto
  with \<open>\<not> length s < pos\<close>
  show "((r, s, if b = pos then pos + 1 else b, Some b), (r, s, pos, prevMatchEnd))
        \<in> measure (\<lambda>(r, s, pos, prevMatchEnd). Suc (length s) - pos)"
    by auto
qed

declare rx_allMatches.simps [simp del]

definition fragment_regexp :: "rx regexp_pkg" where
  "fragment_regexp =
     \<lparr>Compile = (\<lambda>pattern. rx_parse pattern []),
      FindAllStringIndex = (\<lambda>re src. rx_allMatches re src 0 None),
      Expand = (\<lambda>re template src m. template)\<rparr>"

text \<open>
  \<open>clean_path_Dir\<close> is \<open>path.Dir\<close> on paths that are already clean (\<open>a/b/c.txt\<close>,
  \<open>c.txt\<close>): the part before the last slash, and \<open>.\<close> when there is no slash.
\<close>

definition clean_path_Dir :: "string \<Rightarrow> string" where
  "clean_path_Dir p =
     (if CHR ''/'' \<in> set p
      then (let d = rev (drop 1 (dropWhile (\<lambda>c. c \<noteq> CHR ''/'') (rev p)))
            in if d = [] then ''/'' else d)
      else ''.'')"

text \<open>
  For the agent: an engine that always answers with a text block and two tool
  invocations, a user who always answers, a clock that advances by a millisecond per
  reading, and no registered tool (so every execution yields \<open>tool not found\<close>);
  a state in the middle of a session; a response with sixteen invocations, one with five
  invocations of the same tool, and fifteen admitted invocations ending in three of the
  same tool.
\<close>

definition demo_env :: "unit env" where
  "demo_env =
     \<lparr>clock = (\<lambda>n. int n * 1000000),
      getUserMessage = (\<lambda>n. (''go on'', True)),
      client = (\<lambda>n conv. Inr [TextBlock ''working'', ToolUseBlock ''a'' ''list_files'' ''{}'',
                               ToolUseBlock ''b'' ''read_file'' ''{}'']),
      tools = []\<rparr>"

definition demo_state :: "unit state" where
  "demo_state =
     \<lparr>loopProtection = NewLoopProtection 0 0,
      conversation = [MessageParam User [TextBlock ''list the files'']],
      readUserInput = False, status = Running, world = (),
      ticks = 1, reads = 1, calls = 1, trace = [EvUserRead True, EvReset]\<rparr>"

definition batch16 :: "content_block list" where
  "batch16 = concat (replicate 8 [ToolUseBlock ''a'' ''list_files'' ''{}'',
                                  ToolUseBlock ''b'' ''read_file'' ''{}''])"

definition batch_env :: "unit env" where
  "batch_env = demo_env\<lparr>client := (\<lambda>n conv. Inr batch16)\<rparr>"

definition five_calls :: "content_block list" where
  "five_calls = map (\<lambda>ident. ToolUseBlock ident ''list_files'' ''{}'')
                  [''a'', ''b'', ''c'', ''d'', ''e'']"

definition fifteen_calls :: "(int \<times> int \<times> string) list" where
  "fifteen_calls =
     concat (replicate 6 [(1, 1, ''read_file''), (1, 1, ''go_build'')]) @
     replicate 3 (1, 1, ''list_files'')"

section \<open>Lemmas about the library functions and the replacement loop\<close>

lemma join_with_Nil [simp]: "join_with [] x rest = rest" by (simp add: join_with_def)
lemma join_with_Cons [simp]: "join_with (p # ps) x rest = p @ x @ join_with ps x rest" by (simp add: join_with_def)
lemma join_with_snoc: "join_with (ps @ [p]) x rest = join_with ps x (p @ x @ rest)" by (simp add: join_with_def)

lemma length_join_with: "length (join_with ps x rest) = length (concat ps) + length ps * length x + length rest"
  by (induction ps) auto

lemma Index_None: "strings_Index s old = None \<Longrightarrow> \<not> sublist old s"
  by (induction s) (auto simp: sublist_Cons_right split: if_splits)

lemma not_sublist_Index: "\<not> sublist old s \<Longrightarrow> strings_Index s old = None"
  by (induction s) (auto simp: sublist_Cons_right split: if_splits)

lemma Index_Some:
  "strings_Index s old = Some i \<Longrightarrow> old \<noteq> [] \<Longrightarrow>
     s = take i s @ old @ drop (i + length old) s \<and> first_occurrence old (take i s)"
proof (induction s arbitrary: i)
  case Nil then show ?case by simp
next
  case (Cons c s)
  show ?case
  proof (cases "prefix old (c # s)")
    case True
    then have i: "i = 0" using Cons.prems by simp
    from True obtain r where "c # s = old @ r" by (auto simp: prefix_def)
    moreover have "\<not> sublist old (butlast old)"
      using Cons.prems(2) by (cases old rule: rev_cases) (auto dest!: sublist_length_le)
    ultimately show ?thesis using i by (simp add: first_occurrence_def)
  next
    case False
    then obtain j where j: "strings_Index s old = Some j" "i = Suc j"
      using Cons.prems by auto
    from Cons.IH[OF j(1) Cons.prems(2)]
    have eq: "s = take j s @ old @ drop (j + length old) s" and lm: "first_occurrence old (take j s)" by auto
    have "\<not> prefix old (c # take j s @ butlast old)"
    proof
      assume "prefix old (c # take j s @ butlast old)"
      moreover have "prefix (c # take j s @ butlast old) (c # s)"
        by (subst (2) eq) (metis Cons.prems(2) append_butlast_last_id prefix_def append.assoc append_Cons same_prefix_prefix)
      ultimately show False using False by (meson prefix_order.trans)
    qed
    with lm have "first_occurrence old (take i (c # s))"
      by (simp add: first_occurrence_def j sublist_Cons_right)
    moreover have "c # s = take i (c # s) @ old @ drop (i + length old) (c # s)"
      using eq by (simp add: j)
    ultimately show ?thesis by simp
  qed
qed

lemma join_with_neq:
  assumes "ps \<noteq> []" "old \<noteq> new"
  shows "join_with ps new rest \<noteq> join_with ps old rest"
proof (cases "length new = length old")
  case True
  obtain p ps' where ps: "ps = p # ps'" using assms(1) by (cases ps) auto
  show ?thesis using True assms(2) by (auto simp: ps)
next
  case False
  have "length (join_with ps new rest) \<noteq> length (join_with ps old rest)"
    using False assms(1) by (simp add: length_join_with)
  then show ?thesis by metis
qed

text \<open>
  The description is unambiguous: a text has only one splitting into pieces that each
  end before the first occurrence of \<open>old\<close>, once it is fixed that the shorter of two
  splittings stops only where no occurrence is left.
\<close>

lemma first_occurrence_unique:
  assumes old: "old \<noteq> []" and eq: "p @ old @ r = p' @ old @ r'"
    and fo: "first_occurrence old p" "first_occurrence old p'"
  shows "p = p' \<and> r = r'"
proof -
  have aux: False
    if lt: "length q < length q'" and e: "q @ old @ s = q' @ old @ s'"
      and f: "first_occurrence old q'" for q q' s s' :: string
  proof -
    have old_split: "old = butlast old @ [last old]" using old by simp
    have "q' @ old @ s' = (q' @ butlast old) @ ([last old] @ s')"
      by (subst (1) old_split) simp
    with e have "(q @ old) @ s = (q' @ butlast old) @ ([last old] @ s')" by simp
    moreover have "length (q @ old) \<le> length (q' @ butlast old)" using lt old by simp
    ultimately have "prefix (q @ old) (q' @ butlast old)"
      by (metis append_eq_append_conv_if prefix_def prefixI take_is_prefix)
    then have "sublist old (q' @ butlast old)"
      by (metis prefix_def sublist_appendI sublist_append_rightI sublist_order.order.refl sublist_def append.assoc)
    with f show False by (simp add: first_occurrence_def)
  qed
  have "length p = length p'"
    using aux[of p p' r r'] aux[of p' p r' r] eq fo by (metis linorder_neqE_nat)
  with eq show ?thesis by simp
qed

lemma join_with_unique:
  assumes "old \<noteq> []"
    and "join_with ps old rest = join_with ps' old rest'"
    and "\<forall>p\<in>set ps. first_occurrence old p" and "\<forall>p\<in>set ps'. first_occurrence old p"
    and "length ps < length ps' \<longrightarrow> \<not> sublist old rest"
    and "length ps' < length ps \<longrightarrow> \<not> sublist old rest'"
  shows "ps = ps' \<and> rest = rest'"
  using assms(2-)
proof (induction ps arbitrary: ps')
  case Nil
  show ?case
  proof (cases ps')
    case Nil with Nil.prems show ?thesis by simp
  next
    case (Cons p' qs)
    with Nil.prems have "\<not> sublist old rest" "rest = p' @ old @ join_with qs old rest'" by auto
    then show ?thesis by (metis sublist_appendI)
  qed
next
  case (Cons p qs)
  show ?case
  proof (cases ps')
    case Nil
    with Cons.prems have "\<not> sublist old rest'" "rest' = p @ old @ join_with qs old rest" by auto
    then show ?thesis by (metis sublist_appendI)
  next
    case (Cons p' qs')
    with Cons.prems have e: "p @ old @ join_with qs old rest = p' @ old @ join_with qs' old rest'"
      and f: "first_occurrence old p" "first_occurrence old p'" by auto
    from first_occurrence_unique[OF assms(1) e f]
    have pp: "p = p'" "join_with qs old rest = join_with qs' old rest'" by auto
    from Cons.IH[OF pp(2)] Cons.prems Cons have "qs = qs' \<and> rest = rest'" by auto
    with pp Cons show ?thesis by simp
  qed
qed

lemma replace_loop_spec:
  "old \<noteq> [] \<Longrightarrow> replace_loop limit old new count parts remaining = (count', parts', rem') \<Longrightarrow>
   \<exists>ps. remaining = join_with ps old rem' \<and> (\<forall>p\<in>set ps. first_occurrence old p) \<and>
        parts' = parts @ concat (map (\<lambda>p. [p, new]) ps) \<and>
        count' = count + int (length ps) \<and>
        (count' < limit \<longrightarrow> \<not> sublist old rem') \<and>
        (count \<le> limit \<longrightarrow> count' \<le> limit)"
proof (induction limit old new count parts remaining rule: replace_loop.induct)
  case (1 limit oldStr newStr count parts remaining)
  show ?case
  proof (cases "count < limit")
    case False
    with "1.prems" have "count' = count" "parts' = parts" "rem' = remaining"
      by (simp_all add: replace_loop.simps)
    with False show ?thesis by (intro exI[of _ "[]"]) simp
  next
    case True
    show ?thesis
    proof (cases "strings_Index remaining oldStr")
      case None
      with True "1.prems" have "count' = count" "parts' = parts" "rem' = remaining"
        by (simp_all add: replace_loop.simps)
      with None True show ?thesis by (intro exI[of _ "[]"]) (simp add: Index_None)
    next
      case (Some i)
      let ?r = "drop (i + length oldStr) remaining"
      from True Some "1.prems"(2)
      have "replace_loop limit oldStr newStr (count + 1) (parts @ [take i remaining, newStr]) ?r
              = (count', parts', rem')"
        by (simp add: replace_loop.simps)
      from "1.IH"[OF True Some "1.prems"(1) this]
      obtain ps where ps: "?r = join_with ps oldStr rem'" "\<forall>p\<in>set ps. first_occurrence oldStr p"
        "parts' = (parts @ [take i remaining, newStr]) @ concat (map (\<lambda>p. [p, newStr]) ps)"
        "count' = count + 1 + int (length ps)"
        "count' < limit \<longrightarrow> \<not> sublist oldStr rem'"
        "count + 1 \<le> limit \<longrightarrow> count' \<le> limit"
        by blast
      from Index_Some[OF Some "1.prems"(1)]
      have split: "remaining = take i remaining @ oldStr @ ?r" and lm: "first_occurrence oldStr (take i remaining)"
        by auto
      have "remaining = join_with (take i remaining # ps) oldStr rem'"
        using split ps(1) by simp
      with ps lm True show ?thesis
        by (intro exI[of _ "take i remaining # ps"]) simp
    qed
  qed
qed

lemma ReplaceAll_spec:
  "old \<noteq> [] \<Longrightarrow>
   \<exists>ps rest. s = join_with ps old rest \<and> (\<forall>p\<in>set ps. first_occurrence old p) \<and> \<not> sublist old rest \<and>
     strings_ReplaceAll s old new = join_with ps new rest \<and> strings_Count s old = length ps"
proof (induction s old new rule: strings_ReplaceAll.induct)
  case (1 s old new)
  show ?case
  proof (cases "strings_Index s old")
    case None
    with "1.prems" show ?thesis
      by (intro exI[of _ "[]"] exI[of _ s])
         (simp add: strings_ReplaceAll.simps strings_Count.simps Index_None)
  next
    case (Some i)
    let ?r = "drop (i + length old) s"
    from "1.IH"[OF "1.prems" Some "1.prems"]
    obtain ps rest where ps: "?r = join_with ps old rest" "\<forall>p\<in>set ps. first_occurrence old p"
      "\<not> sublist old rest" "strings_ReplaceAll ?r old new = join_with ps new rest"
      "strings_Count ?r old = length ps"
      by blast
    from Index_Some[OF Some "1.prems"]
    have split: "s = take i s @ old @ ?r" and lm: "first_occurrence old (take i s)" by auto
    have "s = join_with (take i s # ps) old rest" using split ps(1) by simp
    moreover have "strings_ReplaceAll s old new = join_with (take i s # ps) new rest"
      using Some "1.prems" ps(4) by (subst strings_ReplaceAll.simps) simp
    moreover have "strings_Count s old = length (take i s # ps)"
      using Some "1.prems" ps(5) by (subst strings_Count.simps) simp
    ultimately show ?thesis using ps(2,3) lm
      by (intro exI[of _ "take i s # ps"] exI[of _ rest]) simp
  qed
qed

lemma Join_empty_sep: "strings_Join xs [] = concat xs"
  by (induction xs "[] :: string" rule: strings_Join.induct) auto

lemma concat_parts: "concat (concat (map (\<lambda>p. [p, new]) ps) @ [rest]) = join_with ps new rest"
  by (induction ps) auto

lemma ensureFileExists_existing: "files fs p = Some c \<Longrightarrow> ensureFileExists Dir fs p = fs"
  by (simp add: ensureFileExists_def os_Stat_def)

lemma os_ReadFile_existing: "files fs p = Some c \<Longrightarrow> os_ReadFile fs p = Inr c"
  by (simp add: os_ReadFile_def)

lemma replaceInFile_spec:
  assumes ex: "files fs path = Some content"
    and old: "old \<noteq> []" "old \<noteq> new"
  shows "\<exists>ps rest. content = join_with ps old rest \<and> (\<forall>p\<in>set ps. first_occurrence old p) \<and>
           (if limit \<le> 0 then \<not> sublist old rest
            else int (length ps) \<le> limit \<and> (int (length ps) < limit \<longrightarrow> \<not> sublist old rest)) \<and>
           replaceInFile Dir fs path old new limit =
             (if ps = [] then (Inl ''old_str not found in file'', fs)
              else (Inr (''Successfully replaced '' @ fmt_d (int (length ps)) @
                         '' occurrence(s) in '' @ path),
                    fs\<lparr>files := (files fs)(path \<mapsto> join_with ps new rest)\<rparr>))"
proof (cases "limit > 0")
  case True
  obtain c' parts' rem' where loop: "replace_loop limit old new 0 [] content = (c', parts', rem')"
    by (cases "replace_loop limit old new 0 [] content") auto
  from replace_loop_spec[OF old(1) loop]
  obtain ps where ps: "content = join_with ps old rem'" "\<forall>p\<in>set ps. first_occurrence old p"
    "parts' = concat (map (\<lambda>p. [p, new]) ps)" "c' = int (length ps)"
    "c' < limit \<longrightarrow> \<not> sublist old rem'" "c' \<le> limit"
    using True by auto
  have new_content: "strings_Join (parts' @ [rem']) [] = join_with ps new rem'"
    using concat_parts[of new ps rem'] by (simp add: Join_empty_sep ps(3))
  have neq: "ps \<noteq> [] \<Longrightarrow> join_with ps old rem' \<noteq> join_with ps new rem'"
    using join_with_neq[of ps old new rem'] old(2) by auto
  have "replaceInFile Dir fs path old new limit =
             (if ps = [] then (Inl ''old_str not found in file'', fs)
              else (Inr (''Successfully replaced '' @ fmt_d (int (length ps)) @
                         '' occurrence(s) in '' @ path),
                    fs\<lparr>files := (files fs)(path \<mapsto> join_with ps new rem')\<rparr>))"
  proof (cases "ps = []")
    case True
    then show ?thesis
      using ex old \<open>limit > 0\<close> loop ps(1,4)
      by (simp add: replaceInFile_def ensureFileExists_existing os_ReadFile_existing)
  next
    case False
    then show ?thesis
      using ex old \<open>limit > 0\<close> loop ps(1,4) new_content neq
      by (simp add: replaceInFile_def ensureFileExists_existing os_ReadFile_existing
            os_WriteFile_def)
  qed
  with ps True show ?thesis
    by (intro exI[of _ ps] exI[of _ rem']) simp
next
  case False
  then have l0: "limit \<le> 0" by simp
  from ReplaceAll_spec[OF old(1), of content new]
  obtain ps rest where ps: "content = join_with ps old rest" "\<forall>p\<in>set ps. first_occurrence old p"
    "\<not> sublist old rest" "strings_ReplaceAll content old new = join_with ps new rest"
    "strings_Count content old = length ps"
    by blast
  have neq: "ps \<noteq> [] \<Longrightarrow> join_with ps old rest \<noteq> join_with ps new rest"
    using join_with_neq[of ps old new rest] old(2) by auto
  have "replaceInFile Dir fs path old new limit =
             (if ps = [] then (Inl ''old_str not found in file'', fs)
              else (Inr (''Successfully replaced '' @ fmt_d (int (length ps)) @
                         '' occurrence(s) in '' @ path),
                    fs\<lparr>files := (files fs)(path \<mapsto> join_with ps new rest)\<rparr>))"
  proof (cases "ps = []")
    case True
    then show ?thesis
      using ex old l0 ps(1,4,5)
      by (simp add: replaceInFile_def ensureFileExists_existing os_ReadFile_existing)
  next
    case False
    then show ?thesis
      using ex old l0 ps(1,4,5) neq
      by (simp add: replaceInFile_def ensureFileExists_existing os_ReadFile_existing
            os_WriteFile_def)
  qed
  with ps l0 show ?thesis
    by (intro exI[of _ ps] exI[of _ rest]) simp
qed

section \<open>Lemmas about the file editor\<close>

lemma Count_zero_iff: "old \<noteq> [] \<Longrightarrow> strings_Count s old = 0 \<longleftrightarrow> strings_Index s old = None"
  by (subst strings_Count.simps) (simp split: option.splits)

lemma replace_loop_all:
  "old \<noteq> [] \<Longrightarrow> count + int (strings_Count s old) \<le> limit \<Longrightarrow>
   \<exists>parts' rem'. replace_loop limit old new count parts s =
        (count + int (strings_Count s old), parts', rem') \<and>
      concat parts' @ rem' = concat parts @ strings_ReplaceAll s old new"
proof (induction s old arbitrary: count parts rule: strings_Count.induct)
  case (1 s old)
  show ?case
  proof (cases "strings_Index s old")
    case None
    then have "strings_Count s old = 0" "strings_ReplaceAll s old new = s"
      using "1.prems"(1) by (simp_all add: strings_Count.simps strings_ReplaceAll.simps)
    with None show ?thesis by (subst replace_loop.simps) simp
  next
    case (Some i)
    let ?r = "drop (i + length old) s"
    have cnt: "strings_Count s old = Suc (strings_Count ?r old)"
      using Some "1.prems"(1) by (subst strings_Count.simps) simp
    have rep: "strings_ReplaceAll s old new = take i s @ new @ strings_ReplaceAll ?r old new"
      using Some "1.prems"(1) by (subst strings_ReplaceAll.simps) simp
    have lt: "count < limit" using "1.prems"(2) cnt by simp
    have "(count + 1) + int (strings_Count ?r old) \<le> limit" using "1.prems"(2) cnt by simp
    from "1.IH"[OF "1.prems"(1) Some "1.prems"(1) this, of "parts @ [take i s, new]"]
    obtain parts' rem' where
      "replace_loop limit old new (count + 1) (parts @ [take i s, new]) ?r =
         (count + 1 + int (strings_Count ?r old), parts', rem')"
      "concat parts' @ rem' = concat (parts @ [take i s, new]) @ strings_ReplaceAll ?r old new"
      by blast
    then show ?thesis using lt Some cnt rep
      by (subst replace_loop.simps) simp
  qed
qed

lemma replaceInFile_limit_count:
  assumes "files fs path = Some content" "old \<noteq> []" "old \<noteq> new"
  shows "replaceInFile Dir fs path old new 0 =
         replaceInFile Dir fs path old new (int (strings_Count content old))"
proof (cases "strings_Count content old = 0")
  case True then show ?thesis by simp
next
  case False
  let ?k = "int (strings_Count content old)"
  from replace_loop_all[OF assms(2), of 0 content ?k new "[]"]
  obtain parts' rem' where loop: "replace_loop ?k old new 0 [] content = (?k, parts', rem')"
    and cat: "concat parts' @ rem' = strings_ReplaceAll content old new"
    by auto
  show ?thesis using assms False loop cat
    by (simp add: replaceInFile_def ensureFileExists_existing os_ReadFile_existing Join_empty_sep)
qed




lemma Index_single_None: "strings_Index s [c] = None \<longleftrightarrow> c \<notin> set s"
  by (induction s) auto

lemma Index_single_append:
  "strings_Index (a @ c # b) [c] =
     (case strings_Index a [c] of Some i \<Rightarrow> Some i | None \<Rightarrow> Some (length a))"
  by (induction a) (auto split: option.splits)

lemma Index_single_lt: "strings_Index s [c] = Some i \<Longrightarrow> i < length s"
  by (induction s arbitrary: i) (auto split: if_splits)

lemma Split_no_sep: "c \<notin> set s \<Longrightarrow> strings_Split s [c] = [s]"
proof -
  assume "c \<notin> set s"
  then have "strings_Index s [c] = None" by (simp add: Index_single_None)
  then show ?thesis by (subst strings_Split.simps) simp
qed

lemma Split_nonempty: "strings_Split s [c] \<noteq> []"
  by (subst strings_Split.simps) (simp split: option.splits)

lemma Split_append: "strings_Split (a @ c # b) [c] = strings_Split a [c] @ strings_Split b [c]"
proof (induction a "[c]" rule: strings_Split.induct)
  case (1 a)
  show ?case
  proof (cases "strings_Index a [c]")
    case None
    then have "strings_Index (a @ c # b) [c] = Some (length a)"
      by (simp add: Index_single_append)
    moreover have "strings_Split a [c] = [a]" using None by (simp add: Split_no_sep Index_single_None)
    ultimately show ?thesis by (subst strings_Split.simps) simp
  next
    case (Some i)
    then have idx: "strings_Index (a @ c # b) [c] = Some i"
      by (simp add: Index_single_append)
    have i: "i < length a" using Some by (rule Index_single_lt)
    have "strings_Split (a @ c # b) [c] = take i a # strings_Split (drop (Suc i) a @ c # b) [c]"
      using idx i by (subst strings_Split.simps) simp
    also have "\<dots> = take i a # (strings_Split (drop (Suc i) a) [c] @ strings_Split b [c])"
      using "1.hyps"[OF _ Some] by simp
    also have "\<dots> = strings_Split a [c] @ strings_Split b [c]"
      using Some by (subst (2) strings_Split.simps) simp
    finally show ?thesis .
  qed
qed

lemma Split_Join:
  "ls \<noteq> [] \<Longrightarrow> strings_Split (strings_Join ls [c]) [c] = concat (map (\<lambda>l. strings_Split l [c]) ls)"
proof (induction ls "[c]" rule: strings_Join.induct)
  case 1 then show ?case by simp
next
  case (2 x) show ?case by simp
next
  case (3 x y zs)
  then show ?case using Split_append[of x c "strings_Join (y # zs) [c]"] by simp
qed

lemma Index_single_take: "strings_Index s [c] = Some i \<Longrightarrow> c \<notin> set (take i s)"
  by (induction s arbitrary: i) (auto split: if_splits)

lemma Split_elems: "l \<in> set (strings_Split s [c]) \<Longrightarrow> c \<notin> set l"
proof (induction s "[c]" arbitrary: l rule: strings_Split.induct)
  case (1 s)
  show ?case
  proof (cases "strings_Index s [c]")
    case None
    then have "strings_Split s [c] = [s]" by (subst strings_Split.simps) simp
    with "1.prems" None show ?thesis by (simp add: Index_single_None)
  next
    case (Some i)
    then have "strings_Split s [c] = take i s # strings_Split (drop (Suc i) s) [c]"
      by (subst strings_Split.simps) simp
    with "1.prems" consider "l = take i s" | "l \<in> set (strings_Split (drop (Suc i) s) [c])"
      by auto
    then show ?thesis
    proof cases
      case 1 then show ?thesis using Index_single_take[OF Some] by simp
    next
      case 2 then show ?thesis using "1.hyps"[OF _ Some] by simp
    qed
  qed
qed

lemma concat_Split_id:
  "(\<And>l. l \<in> set ls \<Longrightarrow> c \<notin> set l) \<Longrightarrow> concat (map (\<lambda>l. strings_Split l [c]) ls) = ls"
  by (induction ls) (simp_all add: Split_no_sep)

lemma insertAtLine_ok:
  assumes ex: "files fs path = Some body"
    and L: "1 \<le> L" "L \<le> int (length (strings_Split body [CHR 0x0A])) + 1"
  shows "\<exists>body'. insertAtLine Dir fs path content L =
           (Inr (''Successfully inserted content at line '' @ fmt_d L @ '' in '' @ path),
            fs\<lparr>files := (files fs)(path \<mapsto> body')\<rparr>) \<and>
         strings_Split body' [CHR 0x0A] =
           take (nat (L - 1)) (strings_Split body [CHR 0x0A]) @ strings_Split content [CHR 0x0A] @
           drop (nat (L - 1)) (strings_Split body [CHR 0x0A])"
proof -
  let ?nl = "[CHR 0x0A]"
  let ?lines = "strings_Split body ?nl"
  let ?new = "take (nat (L - 1)) ?lines @ [content] @ drop (nat (L - 1)) ?lines"
  have newLines: "(if L = 1 then [content] @ ?lines
          else if L > int (length ?lines) then ?lines @ [content]
          else take (nat (L - 1)) ?lines @ [content] @ drop (nat (L - 1)) ?lines) = ?new"
    using L by auto
  have call: "insertAtLine Dir fs path content L =
      (Inr (''Successfully inserted content at line '' @ fmt_d L @ '' in '' @ path),
       fs\<lparr>files := (files fs)(path \<mapsto> strings_Join ?new ?nl)\<rparr>)"
    using ex L newLines
    by (simp add: insertAtLine_def ensureFileExists_existing os_ReadFile_existing
          os_WriteFile_def Let_def del: append.simps)
  have "?new \<noteq> []" by simp
  from Split_Join[OF this, of "CHR 0x0A"]
  have "strings_Split (strings_Join ?new ?nl) ?nl =
        concat (map (\<lambda>l. strings_Split l ?nl) ?new)" .
  also have "\<dots> = concat (map (\<lambda>l. strings_Split l ?nl) (take (nat (L - 1)) ?lines)) @
        strings_Split content ?nl @
        concat (map (\<lambda>l. strings_Split l ?nl) (drop (nat (L - 1)) ?lines))"
    by simp
  also have "concat (map (\<lambda>l. strings_Split l ?nl) (take (nat (L - 1)) ?lines)) =
        take (nat (L - 1)) ?lines"
    by (rule concat_Split_id) (auto dest: in_set_takeD Split_elems)
  also have "concat (map (\<lambda>l. strings_Split l ?nl) (drop (nat (L - 1)) ?lines)) =
        drop (nat (L - 1)) ?lines"
    by (rule concat_Split_id) (auto dest: in_set_dropD Split_elems)
  finally show ?thesis using call by blast
qed

section \<open>Lemmas about the agent\<close>

text \<open>\<open>no_input\<close> holds of the events that are neither a reset nor a user read.\<close>

fun no_input :: "event \<Rightarrow> bool" where
  "no_input EvReset = False"
| "no_input (EvUserRead ok) = False"
| "no_input ev = True"

lemma attempts_simps [simp]:
  "attempts [] = 0"
  "attempts (EvAttempt i n # evs) = Suc (attempts evs)"
  "attempts (EvDenied er # evs) = attempts evs"
  "attempts (EvExecuted i n # evs) = attempts evs"
  "attempts (EvReset # evs) = attempts evs"
  "attempts (EvUserRead ok # evs) = attempts evs"
  by (simp_all add: attempts_def)

lemma since_no_input:
  "list_all no_input new \<Longrightarrow> since_read (new @ EvUserRead ok # evs) = new"
  "list_all no_input new \<Longrightarrow> since_reset (new @ EvUserRead ok # EvReset # evs) = new @ [EvUserRead ok]"
  by (induction new) (auto simp: since_read_def since_reset_def elim: no_input.elims)

lemma resets_match_reads_no_input:
  "list_all no_input new \<Longrightarrow> resets_match_reads (new @ evs) = resets_match_reads evs"
proof (induction new)
  case Nil then show ?case by simp
next
  case (Cons ev new)
  then show ?case by (cases ev) auto
qed

lemma check_frame:
  assumes "loopProtectionCheck lp t1 t2 name = (r, lp')"
  shows "ConsecutiveToolUses lp' = ConsecutiveToolUses lp + 1"
    and "MaxConsecutiveToolUses lp' = MaxConsecutiveToolUses lp"
    and "MaxSameToolCalls lp' = MaxSameToolCalls lp"
    and "MaxSessionDuration lp' = MaxSessionDuration lp"
    and "SessionStartTime lp' = SessionStartTime lp"
  using assms by (auto simp: loopProtectionCheck_def Let_def split: if_splits)

lemma check_consecutive:
  assumes "loopProtectionCheck lp t1 t2 name = (r, lp')"
  shows "ConsecutiveToolUses lp + 1 > MaxConsecutiveToolUses lp \<Longrightarrow>
           r = Some (TooManyConsecutive (ConsecutiveToolUses lp + 1))"
    and "ConsecutiveToolUses lp + 1 \<le> MaxConsecutiveToolUses lp \<Longrightarrow>
           r \<noteq> Some (TooManyConsecutive k)"
  using assms by (auto simp: loopProtectionCheck_def Let_def split: if_splits)

lemma processContent_frame:
  "processContent e blocks rs h st = (err, rs', h', st') \<Longrightarrow>
     readUserInput st' = readUserInput st \<and> status st' = status st \<and>
     conversation st' = conversation st \<and> reads st' = reads st \<and> calls st' = calls st \<and>
     MaxConsecutiveToolUses (loopProtection st') = MaxConsecutiveToolUses (loopProtection st) \<and>
     MaxSameToolCalls (loopProtection st') = MaxSameToolCalls (loopProtection st) \<and>
     MaxSessionDuration (loopProtection st') = MaxSessionDuration (loopProtection st) \<and>
     SessionStartTime (loopProtection st') = SessionStartTime (loopProtection st)"
proof (induction e blocks rs h st rule: processContent.induct)
  case (2 e ident name input rest toolResults hasToolUses st)
  obtain r lp where chk: "loopProtectionCheck (loopProtection st) (clock e (ticks st))
      (clock e (Suc (ticks st))) name = (r, lp)"
    by (cases "loopProtectionCheck (loopProtection st) (clock e (ticks st))
      (clock e (Suc (ticks st))) name") auto
  note fr = check_frame[OF chk]
  show ?case
  proof (cases r)
    case None
    obtain result w where ex: "executeTool (tools e) (world st) ident name input = (result, w)"
      by (cases "executeTool (tools e) (world st) ident name input") auto
    from "2.prems" chk None ex
    have "processContent e rest (toolResults @ [result]) True
            (st\<lparr>loopProtection := lp, ticks := ticks st + 2, world := w,
               trace := EvExecuted ident name # EvAttempt ident name # trace st\<rparr>) =
          (err, rs', h', st')"
      by simp
    from "2.IH"[OF chk[symmetric] None ex[symmetric] this] fr
    show ?thesis by simp
  next
    case (Some er)
    with "2.prems" chk fr show ?thesis by auto
  qed
qed auto

lemma processContent_trace:
  assumes "processContent e blocks rs h st = (err, rs', h', st')"
    and "trace st = new0 @ base" and "list_all no_input new0"
    and "ConsecutiveToolUses (loopProtection st) = int (attempts new0)"
  shows "\<exists>new. trace st' = new @ base \<and> list_all no_input new \<and>
      ConsecutiveToolUses (loopProtection st') = int (attempts new) \<and>
      (\<forall>er. err = Some er \<longrightarrow>
         (\<exists>ident name rest. new = EvDenied er # EvAttempt ident name # rest))"
  using assms
proof (induction e blocks rs h st arbitrary: new0 rule: processContent.induct)
  case (1 e toolResults hasToolUses st)
  then show ?case by auto
next
  case (2 e ident name input rest toolResults hasToolUses st)
  obtain r lp where chk: "loopProtectionCheck (loopProtection st) (clock e (ticks st))
      (clock e (Suc (ticks st))) name = (r, lp)"
    by (cases "loopProtectionCheck (loopProtection st) (clock e (ticks st))
      (clock e (Suc (ticks st))) name") auto
  note fr = check_frame[OF chk]
  show ?case
  proof (cases r)
    case None
    obtain result w where ex: "executeTool (tools e) (world st) ident name input = (result, w)"
      by (cases "executeTool (tools e) (world st) ident name input") auto
    let ?st2 = "st\<lparr>loopProtection := lp, ticks := ticks st + 2, world := w,
               trace := EvExecuted ident name # EvAttempt ident name # trace st\<rparr>"
    let ?new1 = "EvExecuted ident name # EvAttempt ident name # new0"
    from "2.prems"(1) chk None ex
    have run: "processContent e rest (toolResults @ [result]) True ?st2 = (err, rs', h', st')"
      by simp
    have a: "trace ?st2 = ?new1 @ base" using "2.prems"(2) by simp
    have b: "list_all no_input ?new1" using "2.prems"(3) by simp
    have c: "ConsecutiveToolUses (loopProtection ?st2) = int (attempts ?new1)"
      using fr(1) "2.prems"(4) by simp
    from "2.IH"[OF chk[symmetric] None ex[symmetric] run a b c]
    show ?thesis .
  next
    case (Some er)
    let ?new1 = "EvDenied er # EvAttempt ident name # new0"
    from "2.prems"(1) chk Some
    have res: "err = Some er" "trace st' = ?new1 @ base" "loopProtection st' = lp"
      using "2.prems"(2) by auto
    have cnt: "ConsecutiveToolUses lp = int (attempts ?new1)"
      using fr(1) "2.prems"(4) by simp
    with res "2.prems"(3) show ?thesis
      by (intro exI[of _ ?new1]) auto
  qed
next
  case (3 e v rest toolResults hasToolUses st)
  from "3.prems"(1) have "processContent e rest toolResults hasToolUses st = (err, rs', h', st')"
    by simp
  from "3.IH"[OF this "3.prems"(2-4)] show ?case .
next
  case (4 e v va vb rest toolResults hasToolUses st)
  from "4.prems"(1) have "processContent e rest toolResults hasToolUses st = (err, rs', h', st')"
    by simp
  from "4.IH"[OF this "4.prems"(2-4)] show ?case .
next
  case (5 e v rest toolResults hasToolUses st)
  from "5.prems"(1) have "processContent e rest toolResults hasToolUses st = (err, rs', h', st')"
    by simp
  from "5.IH"[OF this "5.prems"(2-4)] show ?case .
qed

lemma processContent_limit:
  assumes "processContent e blocks rs h st = (err, rs', h', st')"
    and "ConsecutiveToolUses (loopProtection st) \<le> MaxConsecutiveToolUses (loopProtection st)"
  shows "(err = None \<longrightarrow>
            ConsecutiveToolUses (loopProtection st') \<le> MaxConsecutiveToolUses (loopProtection st)) \<and>
         (\<forall>er. err = Some er \<longrightarrow>
            ConsecutiveToolUses (loopProtection st') \<le> MaxConsecutiveToolUses (loopProtection st) \<or>
            er = TooManyConsecutive (MaxConsecutiveToolUses (loopProtection st) + 1) \<and>
            ConsecutiveToolUses (loopProtection st') =
              MaxConsecutiveToolUses (loopProtection st) + 1)"
  using assms
proof (induction e blocks rs h st rule: processContent.induct)
  case (2 e ident name input rest toolResults hasToolUses st)
  let ?M = "MaxConsecutiveToolUses (loopProtection st)"
  obtain r lp where chk: "loopProtectionCheck (loopProtection st) (clock e (ticks st))
      (clock e (Suc (ticks st))) name = (r, lp)"
    by (cases "loopProtectionCheck (loopProtection st) (clock e (ticks st))
      (clock e (Suc (ticks st))) name") auto
  note fr = check_frame[OF chk]
  note cons = check_consecutive[OF chk]
  show ?case
  proof (cases r)
    case None
    obtain result w where ex: "executeTool (tools e) (world st) ident name input = (result, w)"
      by (cases "executeTool (tools e) (world st) ident name input") auto
    let ?st2 = "st\<lparr>loopProtection := lp, ticks := ticks st + 2, world := w,
               trace := EvExecuted ident name # EvAttempt ident name # trace st\<rparr>"
    from "2.prems"(1) chk None ex
    have run: "processContent e rest (toolResults @ [result]) True ?st2 = (err, rs', h', st')"
      by simp
    have le: "ConsecutiveToolUses (loopProtection st) + 1 \<le> ?M"
      using cons(1) None by fastforce
    then have d: "ConsecutiveToolUses (loopProtection ?st2) \<le>
        MaxConsecutiveToolUses (loopProtection ?st2)"
      using fr(1,2) by simp
    from "2.IH"[OF chk[symmetric] None ex[symmetric] run d] fr(2)
    show ?thesis by simp
  next
    case (Some er)
    from "2.prems"(1) chk Some
    have res: "err = Some er" "loopProtection st' = lp" by auto
    show ?thesis
    proof (cases "ConsecutiveToolUses (loopProtection st) + 1 > ?M")
      case True
      then have "er = TooManyConsecutive (ConsecutiveToolUses (loopProtection st) + 1)"
        using cons(1) Some by simp
      moreover have "ConsecutiveToolUses (loopProtection st) + 1 = ?M + 1"
        using True "2.prems"(2) by linarith
      ultimately show ?thesis using res fr(1) by simp
    next
      case False
      then show ?thesis using res fr(1) by simp
    qed
  qed
qed auto

text \<open>
  The invariant of \<open>Run\<close>: either nothing has happened yet, or the trace is some
  events without reset and read on top of a user read on top of a reset, the
  consecutive counter is the number of attempts among these events, and (for a
  non-negative limit) that number is within the limit unless the newest two events are
  the attempt and the consecutive denial that went one beyond it.
\<close>

definition run_core :: "'w state \<Rightarrow> event list \<Rightarrow> bool" where
  "run_core st new \<longleftrightarrow>
     (\<exists>ok older. trace st = new @ EvUserRead ok # EvReset # older \<and> resets_match_reads older) \<and>
     list_all no_input new \<and>
     ConsecutiveToolUses (loopProtection st) = int (attempts new)"

definition run_inv :: "'w state \<Rightarrow> bool" where
  "run_inv st \<longleftrightarrow>
     trace st = [] \<and> readUserInput st \<or>
     (\<exists>new. run_core st new \<and>
        (0 \<le> MaxConsecutiveToolUses (loopProtection st) \<longrightarrow>
           int (attempts new) \<le> MaxConsecutiveToolUses (loopProtection st) \<or>
           readUserInput st \<and>
           int (attempts new) = MaxConsecutiveToolUses (loopProtection st) + 1 \<and>
           (\<exists>ident name rest.
              new = EvDenied (TooManyConsecutive (MaxConsecutiveToolUses (loopProtection st) + 1))
                    # EvAttempt ident name # rest)))"

lemma run_core_cong:
  "trace st' = trace st \<Longrightarrow> loopProtection st' = loopProtection st \<Longrightarrow>
   run_core st' new = run_core st new"
  by (simp add: run_core_def)

lemma run_inv_cong:
  "trace st' = trace st \<Longrightarrow> loopProtection st' = loopProtection st \<Longrightarrow>
   readUserInput st' = readUserInput st \<Longrightarrow> run_inv st' = run_inv st"
  by (simp add: run_inv_def run_core_def)

lemma run_inv_matched: "run_inv st \<Longrightarrow> resets_match_reads (trace st)"
  by (auto simp: run_inv_def run_core_def resets_match_reads_no_input)

lemma run_core_after_read:
  assumes "run_inv st"
    and "readUserInputToConversation e
           (st\<lparr>ticks := Suc (ticks st),
               loopProtection := (loopProtection st)\<lparr>ConsecutiveToolUses := 0,
                  LastToolName := [], SameToolCallCount := 0\<rparr>,
               trace := EvReset # trace st\<rparr>) = (ok, st2)"
  shows "run_core st2 []"
    and "MaxConsecutiveToolUses (loopProtection st2) = MaxConsecutiveToolUses (loopProtection st)"
    and "MaxSessionDuration (loopProtection st2) = MaxSessionDuration (loopProtection st)"
    and "status st2 = status st"
  using assms(2) run_inv_matched[OF assms(1)]
  by (auto simp: readUserInputToConversation_def run_core_def Let_def split: prod.splits if_splits)

lemma run_core_process:
  assumes core: "run_core st4 new0"
    and lim: "0 \<le> MaxConsecutiveToolUses (loopProtection st4) \<longrightarrow>
           int (attempts new0) \<le> MaxConsecutiveToolUses (loopProtection st4)"
    and run: "processToolUsages e message st4 = ((nxt, err), st5)"
  shows "run_inv (st5\<lparr>readUserInput := nxt\<rparr>)"
proof -
  let ?M = "MaxConsecutiveToolUses (loopProtection st4)"
  obtain err' rs' h' st1 where pc: "processContent e message [] False st4 = (err', rs', h', st1)"
    by (cases "processContent e message [] False st4") auto
  from core obtain ok older where tr: "trace st4 = new0 @ EvUserRead ok # EvReset # older"
    and older: "resets_match_reads older" and ni: "list_all no_input new0"
    and cnt: "ConsecutiveToolUses (loopProtection st4) = int (attempts new0)"
    by (auto simp: run_core_def)
  from processContent_trace[OF pc tr ni cnt]
  obtain new where new: "trace st1 = new @ EvUserRead ok # EvReset # older"
    "list_all no_input new" "ConsecutiveToolUses (loopProtection st1) = int (attempts new)"
    "\<forall>er. err' = Some er \<longrightarrow> (\<exists>ident name rest. new = EvDenied er # EvAttempt ident name # rest)"
    by blast
  from processContent_frame[OF pc]
  have M: "MaxConsecutiveToolUses (loopProtection st1) = ?M" by simp
  have core1: "run_core st1 new" using new older by (auto simp: run_core_def)
  have limit: "(err' = None \<longrightarrow> int (attempts new) \<le> ?M) \<and>
         (\<forall>er. err' = Some er \<longrightarrow> int (attempts new) \<le> ?M \<or>
            er = TooManyConsecutive (?M + 1) \<and> int (attempts new) = ?M + 1)" if "0 \<le> ?M"
    using processContent_limit[OF pc] lim that cnt new(3) by simp
  show ?thesis
  proof (cases err')
    case None
    then have st5: "trace st5 = trace st1" "loopProtection st5 = loopProtection st1"
      using run pc by (auto simp: processToolUsages_def split: if_splits)
    have "run_core (st5\<lparr>readUserInput := nxt\<rparr>) new"
      using core1 st5 by (simp add: run_core_def)
    moreover have "0 \<le> ?M \<longrightarrow> int (attempts new) \<le> ?M" using limit None by simp
    ultimately show ?thesis using M st5 by (auto simp: run_inv_def)
  next
    case (Some er)
    then have st5: "st5 = st1" "nxt" using run pc by (auto simp: processToolUsages_def)
    have "run_core (st5\<lparr>readUserInput := nxt\<rparr>) new"
      using core1 st5 by (simp add: run_core_def)
    moreover have "0 \<le> ?M \<longrightarrow> int (attempts new) \<le> ?M \<or>
        int (attempts new) = ?M + 1 \<and>
        (\<exists>ident name rest. new = EvDenied (TooManyConsecutive (?M + 1)) # EvAttempt ident name # rest)"
      using limit new(4) Some by auto
    ultimately show ?thesis using M st5
      unfolding run_inv_def by (intro disjI2 exI[of _ new]) auto
  qed
qed

lemma run_inv_step: "run_inv st \<Longrightarrow> run_inv (Run_iteration e st)"
proof -
  assume inv: "run_inv st"
  let ?M = "MaxConsecutiveToolUses (loopProtection st)"
  let ?st1 = "st\<lparr>ticks := Suc (ticks st)\<rparr>"
  let ?over = "clock e (ticks st) - SessionStartTime (loopProtection st) >
           MaxSessionDuration (loopProtection st)"
  show ?thesis
  proof (cases "status st \<noteq> Running \<or> ?over")
    case True
    then have "run_inv (Run_iteration e st) = run_inv st"
      by (intro run_inv_cong) (auto simp: Run_iteration_def Let_def)
    with inv show ?thesis by simp
  next
    case False
    obtain ok st2 where rd: "(if readUserInput ?st1
                 then readUserInputToConversation e
                        (?st1\<lparr>loopProtection :=
                               (loopProtection ?st1)\<lparr>ConsecutiveToolUses := 0,
                                  LastToolName := [], SameToolCallCount := 0\<rparr>,
                             trace := EvReset # trace ?st1\<rparr>)
                 else (True, ?st1)) = (ok, st2)"
      by (cases "(if readUserInput ?st1
                 then readUserInputToConversation e
                        (?st1\<lparr>loopProtection :=
                               (loopProtection ?st1)\<lparr>ConsecutiveToolUses := 0,
                                  LastToolName := [], SameToolCallCount := 0\<rparr>,
                             trace := EvReset # trace ?st1\<rparr>)
                 else (True, ?st1))") auto
    have core2: "\<exists>new. run_core st2 new \<and>
        (0 \<le> MaxConsecutiveToolUses (loopProtection st2) \<longrightarrow>
           int (attempts new) \<le> MaxConsecutiveToolUses (loopProtection st2))"
    proof (cases "readUserInput st")
      case True
      with rd have "readUserInputToConversation e
           (st\<lparr>ticks := Suc (ticks st),
               loopProtection := (loopProtection st)\<lparr>ConsecutiveToolUses := 0,
                  LastToolName := [], SameToolCallCount := 0\<rparr>,
               trace := EvReset # trace st\<rparr>) = (ok, st2)"
        by simp
      from run_core_after_read(1)[OF inv this] show ?thesis
        by (intro exI[of _ "[]"]) simp
    next
      case False
      with rd have st2: "st2 = ?st1" by simp
      from inv False obtain new where "run_core st new"
        "0 \<le> ?M \<longrightarrow> int (attempts new) \<le> ?M"
        by (auto simp: run_inv_def)
      then show ?thesis unfolding st2 by (intro exI[of _ new]) (simp add: run_core_def)
    qed
    then obtain new where core: "run_core st2 new"
      and lim: "0 \<le> MaxConsecutiveToolUses (loopProtection st2) \<longrightarrow>
           int (attempts new) \<le> MaxConsecutiveToolUses (loopProtection st2)"
      by blast
    have inv2: "run_inv st2" using core lim by (auto simp: run_inv_def)
    show ?thesis
    proof (cases ok)
      case False
      then have "Run_iteration e st = st2\<lparr>status := Returned None\<rparr>"
        using \<open>\<not> (status st \<noteq> Running \<or> ?over)\<close> rd
        by (simp add: Run_iteration_def Let_def)
      moreover have "run_inv (st2\<lparr>status := Returned None\<rparr>) = run_inv st2"
        by (intro run_inv_cong) simp_all
      ultimately show ?thesis using inv2 by simp
    next
      case True
      obtain resp st3 where gen: "generateResponse e st2 = (resp, st3)"
        by (cases "generateResponse e st2") auto
      then have st3: "st3 = st2\<lparr>calls := Suc (calls st2)\<rparr>"
        by (auto simp: generateResponse_def)
      show ?thesis
      proof (cases resp)
        case (Inl err)
        then have "Run_iteration e st = st3\<lparr>status := Returned (Some err)\<rparr>"
          using \<open>\<not> (status st \<noteq> Running \<or> ?over)\<close> rd True gen
          by (simp add: Run_iteration_def Let_def)
        moreover have "run_inv (st3\<lparr>status := Returned (Some err)\<rparr>) = run_inv st2"
          unfolding st3 by (intro run_inv_cong) simp_all
        ultimately show ?thesis using inv2 by simp
      next
        case (Inr message)
        let ?st4 = "st3\<lparr>conversation := conversation st3 @ [MessageParam Assistant message]\<rparr>"
        obtain nxt err st5 where pt: "processToolUsages e message ?st4 = ((nxt, err), st5)"
          by (cases "processToolUsages e message ?st4") auto
        have it: "Run_iteration e st = st5\<lparr>readUserInput := nxt\<rparr>"
          using \<open>\<not> (status st \<noteq> Running \<or> ?over)\<close> rd True gen Inr pt
          by (simp add: Run_iteration_def Let_def)
        have core4: "run_core ?st4 new" using core unfolding st3 by (simp add: run_core_def)
        have lim4: "0 \<le> MaxConsecutiveToolUses (loopProtection ?st4) \<longrightarrow>
           int (attempts new) \<le> MaxConsecutiveToolUses (loopProtection ?st4)"
          using lim unfolding st3 by simp
        from run_core_process[OF core4 lim4 pt] show ?thesis unfolding it .
      qed
    qed
  qed
qed

lemma run_inv_Run: "run_inv (Run e lp w n)"
proof (induction n)
  case 0
  show ?case by (simp add: Run_def Run_start_def run_inv_def)
next
  case (Suc n)
  then show ?case using run_inv_step[of "Run e lp w n" e] by (simp add: Run_def)
qed

lemma attempts_append: "attempts (xs @ ys) = attempts xs + attempts ys"
  by (simp add: attempts_def)

lemma matched_counts:
  "resets_match_reads evs \<Longrightarrow>
   length (filter (\<lambda>ev. ev = EvReset) evs) = length (filter is_read evs)"
  by (induction evs rule: resets_match_reads.induct) auto

lemma processContent_extends:
  "processContent e blocks rs h st = (err, rs', h', st') \<Longrightarrow> \<exists>more. trace st' = more @ trace st"
proof (induction e blocks rs h st rule: processContent.induct)
  case (2 e ident name input rest toolResults hasToolUses st)
  obtain r lp where chk: "loopProtectionCheck (loopProtection st) (clock e (ticks st))
      (clock e (Suc (ticks st))) name = (r, lp)"
    by (cases "loopProtectionCheck (loopProtection st) (clock e (ticks st))
      (clock e (Suc (ticks st))) name") auto
  show ?case
  proof (cases r)
    case None
    obtain result w where ex: "executeTool (tools e) (world st) ident name input = (result, w)"
      by (cases "executeTool (tools e) (world st) ident name input") auto
    from "2.prems" chk None ex
    have "processContent e rest (toolResults @ [result]) True
            (st\<lparr>loopProtection := lp, ticks := ticks st + 2, world := w,
               trace := EvExecuted ident name # EvAttempt ident name # trace st\<rparr>) =
          (err, rs', h', st')"
      by simp
    from "2.IH"[OF chk[symmetric] None ex[symmetric] this]
    show ?thesis by auto
  next
    case (Some er)
    with "2.prems" chk show ?thesis by auto
  qed
qed auto

lemma next_iteration_reads:
  assumes "readUserInput st" and "status st = Running"
  shows "trace (Run_iteration e st) = trace st \<and> status (Run_iteration e st) = Returned None \<or>
         (\<exists>more ok. trace (Run_iteration e st) = more @ EvUserRead ok # EvReset # trace st)"
proof (cases "clock e (ticks st) - SessionStartTime (loopProtection st) >
           MaxSessionDuration (loopProtection st)")
  case True
  with assms show ?thesis by (simp add: Run_iteration_def Let_def)
next
  case False
  let ?stR = "st\<lparr>ticks := Suc (ticks st),
               loopProtection := (loopProtection st)\<lparr>ConsecutiveToolUses := 0,
                  LastToolName := [], SameToolCallCount := 0\<rparr>,
               trace := EvReset # trace st\<rparr>"
  obtain ok st2 where rd: "readUserInputToConversation e ?stR = (ok, st2)"
    by (cases "readUserInputToConversation e ?stR") auto
  then have tr2: "trace st2 = EvUserRead ok # EvReset # trace st"
    by (auto simp: readUserInputToConversation_def Let_def split: prod.splits if_splits)
  show ?thesis
  proof (cases ok)
    case False
    with assms \<open>\<not> _ > _\<close> rd tr2 have "trace (Run_iteration e st) = EvUserRead ok # EvReset # trace st"
      by (simp add: Run_iteration_def Let_def)
    then show ?thesis by auto
  next
    case True
    obtain resp st3 where gen: "generateResponse e st2 = (resp, st3)"
      by (cases "generateResponse e st2") auto
    then have st3: "st3 = st2\<lparr>calls := Suc (calls st2)\<rparr>"
      by (auto simp: generateResponse_def)
    show ?thesis
    proof (cases resp)
      case (Inl err)
      with assms \<open>\<not> _ > _\<close> rd tr2 True gen st3
      have "trace (Run_iteration e st) = EvUserRead ok # EvReset # trace st"
        by (simp add: Run_iteration_def Let_def)
      then show ?thesis by auto
    next
      case (Inr message)
      let ?st4 = "st3\<lparr>conversation := conversation st3 @ [MessageParam Assistant message]\<rparr>"
      obtain nxt err st5 where pt: "processToolUsages e message ?st4 = ((nxt, err), st5)"
        by (cases "processToolUsages e message ?st4") auto
      obtain err' rs' h' st1 where pc: "processContent e message [] False ?st4 = (err', rs', h', st1)"
        by (cases "processContent e message [] False ?st4") auto
      from processContent_extends[OF pc] obtain more where "trace st1 = more @ trace ?st4" by blast
      moreover have "trace st5 = trace st1"
        using pt pc by (auto simp: processToolUsages_def split: option.splits if_splits)
      ultimately have "trace st5 = more @ EvUserRead ok # EvReset # trace st"
        using tr2 st3 by simp
      moreover have "Run_iteration e st = st5\<lparr>readUserInput := nxt\<rparr>"
        using assms \<open>\<not> _ > _\<close> rd True gen Inr pt by (simp add: Run_iteration_def Let_def)
      ultimately show ?thesis by auto
    qed
  qed
qed

lemma Run_iteration_Max:
  "MaxConsecutiveToolUses (loopProtection (Run_iteration e st)) =
   MaxConsecutiveToolUses (loopProtection st)"
proof -
  have pt: "MaxConsecutiveToolUses (loopProtection st5) = MaxConsecutiveToolUses (loopProtection st4)"
    if "processToolUsages e message st4 = ((nxt, err), st5)" for message st4 nxt err st5
  proof -
    obtain err' rs' h' st1 where pc: "processContent e message [] False st4 = (err', rs', h', st1)"
      by (cases "processContent e message [] False st4") auto
    from processContent_frame[OF pc] that pc show ?thesis
      by (auto simp: processToolUsages_def split: option.splits if_splits)
  qed
  show ?thesis
    by (auto simp: Run_iteration_def Let_def readUserInputToConversation_def generateResponse_def
        split: prod.splits sum.splits if_splits dest!: pt)
qed

lemma Run_Max: "MaxConsecutiveToolUses (loopProtection (Run e lp w n)) = MaxConsecutiveToolUses lp"
  by (induction n) (simp_all add: Run_def Run_start_def Run_iteration_Max)

lemma executeTool_id:
  "executeTool ts w ident name input = (result, w') \<Longrightarrow> result_id result = Some ident"
  by (auto simp: executeTool_def split: option.splits prod.splits sum.splits)

lemma processContent_results:
  "processContent e blocks rs h st = (None, rs', h', st') \<Longrightarrow>
   \<exists>results. rs' = rs @ results \<and> map result_id results = map Some (tool_use_ids blocks) \<and>
      h' = (h \<or> tool_use_ids blocks \<noteq> [])"
proof (induction e blocks rs h st rule: processContent.induct)
  case (2 e ident name input rest toolResults hasToolUses st)
  obtain r lp where chk: "loopProtectionCheck (loopProtection st) (clock e (ticks st))
      (clock e (Suc (ticks st))) name = (r, lp)"
    by (cases "loopProtectionCheck (loopProtection st) (clock e (ticks st))
      (clock e (Suc (ticks st))) name") auto
  show ?case
  proof (cases r)
    case None
    obtain result w where ex: "executeTool (tools e) (world st) ident name input = (result, w)"
      by (cases "executeTool (tools e) (world st) ident name input") auto
    from "2.prems" chk None ex
    have "processContent e rest (toolResults @ [result]) True
            (st\<lparr>loopProtection := lp, ticks := ticks st + 2, world := w,
               trace := EvExecuted ident name # EvAttempt ident name # trace st\<rparr>) =
          (None, rs', h', st')"
      by simp
    from "2.IH"[OF chk[symmetric] None ex[symmetric] this]
    obtain results where "rs' = (toolResults @ [result]) @ results"
      "map result_id results = map Some (tool_use_ids rest)" "h' = True"
      by auto
    then show ?thesis using executeTool_id[OF ex]
      by (intro exI[of _ "result # results"]) simp
  next
    case (Some er)
    with "2.prems" chk show ?thesis by auto
  qed
qed auto

lemma allowed_calls_snoc:
  "allowed_calls lp (cs @ [(now1, now2, name)]) =
     (case allowed_calls lp cs of
        None \<Rightarrow> None
      | Some lp1 \<Rightarrow>
          (case loopProtectionCheck lp1 now1 now2 name of
             (None, lp2) \<Rightarrow> Some lp2
           | (Some err, lp2) \<Rightarrow> None))"
  by (induction lp cs rule: allowed_calls.induct) (auto split: prod.splits option.splits)

lemma streak_snoc:
  "streak (names @ [n]) = (if names \<noteq> [] \<and> last names = n then Suc (streak names) else 1)"
proof (cases names rule: rev_cases)
  case Nil then show ?thesis by (simp add: streak_def)
next
  case (snoc ns m) then show ?thesis by (simp add: streak_def)
qed

lemma check_same_tool:
  assumes "loopProtectionCheck lp now1 now2 name = (res, lp')" and "reaches_same_tool_check res"
  shows "LastToolName lp' = name"
    and "MaxSameToolCalls lp' = MaxSameToolCalls lp"
    and "LastToolName lp = name \<Longrightarrow> SameToolCallCount lp' = SameToolCallCount lp + 1"
    and "LastToolName lp \<noteq> name \<Longrightarrow> SameToolCallCount lp' = 1 \<and> res = None"
    and "res = None \<or> res = Some (TooManySameTool name (SameToolCallCount lp'))"
    and "LastToolName lp = name \<Longrightarrow>
           (res = None \<longleftrightarrow> SameToolCallCount lp + 1 < MaxSameToolCalls lp)"
  using assms by (auto simp: loopProtectionCheck_def Let_def split: if_splits)

lemma allowed_calls_streak:
  assumes "LastToolName lp0 = []" and "SameToolCallCount lp0 = 0"
    and "2 \<le> MaxSameToolCalls lp0"
    and "allowed_calls lp0 cs = Some lp"
  shows "MaxSameToolCalls lp = MaxSameToolCalls lp0 \<and>
         SameToolCallCount lp = int (streak (map (\<lambda>c. snd (snd c)) cs)) \<and>
         SameToolCallCount lp < MaxSameToolCalls lp0 \<and>
         LastToolName lp = (if cs = [] then [] else snd (snd (last cs)))"
  using assms(4)
proof (induction cs arbitrary: lp rule: rev_induct)
  case Nil
  with assms(1-3) show ?case by (simp add: streak_def)
next
  case (snoc c cs)
  obtain now1 now2 name where c: "c = (now1, now2, name)" by (cases c) auto
  from snoc.prems obtain lp1 where lp1: "allowed_calls lp0 cs = Some lp1"
    and chk: "loopProtectionCheck lp1 now1 now2 name = (None, lp)"
    unfolding c allowed_calls_snoc by (auto split: option.splits prod.splits)
  note ih = snoc.IH[OF lp1]
  have r: "reaches_same_tool_check None" by simp
  note st = check_same_tool[OF chk r]
  show ?case
  proof (cases "LastToolName lp1 = name")
    case True
    have cnt: "SameToolCallCount lp = SameToolCallCount lp1 + 1" using st(3)[OF True] .
    have lt: "SameToolCallCount lp1 + 1 < MaxSameToolCalls lp1" using st(6)[OF True] by simp
    have "streak (map (\<lambda>c. snd (snd c)) (cs @ [c])) = Suc (streak (map (\<lambda>c. snd (snd c)) cs))"
    proof (cases "cs = []")
      case True
      then show ?thesis by (simp add: streak_def c)
    next
      case False
      then have "last (map (\<lambda>c. snd (snd c)) cs) = name"
        using ih True by (simp add: last_map)
      with False show ?thesis by (simp add: streak_snoc c)
    qed
    with cnt lt ih st(1,2) show ?thesis by (simp add: c)
  next
    case False
    have cnt: "SameToolCallCount lp = 1" using st(4)[OF False] by simp
    have "cs \<noteq> [] \<Longrightarrow> last (map (\<lambda>c. snd (snd c)) cs) \<noteq> name"
      using ih False by (simp add: last_map)
    then have "streak (map (\<lambda>c. snd (snd c)) (cs @ [c])) = 1"
      by (auto simp: streak_snoc c)
    with cnt ih st(1,2) assms(3) show ?thesis by (simp add: c)
  qed
qed

section \<open>The claims\<close>

text \<open>
  Claim C1. For every file content and every call of the \<open>file_editor\<close> tool in mode
  \<open>replace\<close> on an existing file: an empty \<open>old_str\<close> makes the call fail; an
  \<open>old_str\<close> equal to \<open>new_str\<close> makes it succeed as a no-op that leaves the file
  system unchanged; otherwise the content is \<open>p\<^sub>1 old p\<^sub>2 old \<dots> p\<^sub>k old rest\<close>, each
  shown \<open>old\<close> being the first occurrence behind the previous one, and the file
  becomes \<open>p\<^sub>1 new p\<^sub>2 new \<dots> p\<^sub>k new rest\<close>: with limit 0 (or a negative limit) no
  occurrence is left in \<open>rest\<close> (all are replaced), with a positive limit \<open>N\<close> at most \<open>N\<close> are replaced and
  fewer than \<open>N\<close> only when \<open>rest\<close> has no occurrence; the call fails, without a write,
  exactly when \<open>k = 0\<close>. (By \<open>join_with_unique\<close> these conditions determine the pieces
  and \<open>rest\<close>, hence the new content.)
\<close>

theorem replace_mode_semantics:
  assumes "Mode inp = ''replace''" and "Path inp \<noteq> []"
    and "files fs (Path inp) = Some content"
  shows "(OldStr inp = [] \<longrightarrow>
            EditFileContent E Dir fs (Inr inp) = (Inl ''old_str cannot be empty'', fs)) \<and>
         (OldStr inp \<noteq> [] \<and> OldStr inp = NewStr inp \<longrightarrow>
            EditFileContent E Dir fs (Inr inp) =
              (Inr ''No changes needed - old_str and new_str are identical'', fs)) \<and>
         (OldStr inp \<noteq> [] \<and> OldStr inp \<noteq> NewStr inp \<longrightarrow>
            (\<exists>ps rest.
               content = join_with ps (OldStr inp) rest \<and>
               (\<forall>p\<in>set ps. first_occurrence (OldStr inp) p) \<and>
               (if Limit inp \<le> 0 then \<not> sublist (OldStr inp) rest
                else int (length ps) \<le> Limit inp \<and>
                     (int (length ps) < Limit inp \<longrightarrow> \<not> sublist (OldStr inp) rest)) \<and>
               EditFileContent E Dir fs (Inr inp) =
                 (if ps = [] then (Inl ''old_str not found in file'', fs)
                  else (Inr (''Successfully replaced '' @ fmt_d (int (length ps)) @
                             '' occurrence(s) in '' @ Path inp),
                        fs\<lparr>files := (files fs)(Path inp \<mapsto> join_with ps (NewStr inp) rest)\<rparr>))))"
proof -
  have call: "EditFileContent E Dir fs (Inr inp) =
      replaceInFile Dir fs (Path inp) (OldStr inp) (NewStr inp) (Limit inp)"
    using assms(1,2) by (simp add: EditFileContent_def)
  have "OldStr inp = [] \<longrightarrow>
            EditFileContent E Dir fs (Inr inp) = (Inl ''old_str cannot be empty'', fs)"
    by (simp add: call replaceInFile_def)
  moreover have "OldStr inp \<noteq> [] \<and> OldStr inp = NewStr inp \<longrightarrow>
            EditFileContent E Dir fs (Inr inp) =
              (Inr ''No changes needed - old_str and new_str are identical'', fs)"
    by (simp add: call replaceInFile_def)
  moreover have "OldStr inp \<noteq> [] \<and> OldStr inp \<noteq> NewStr inp \<longrightarrow>
            (\<exists>ps rest.
               content = join_with ps (OldStr inp) rest \<and>
               (\<forall>p\<in>set ps. first_occurrence (OldStr inp) p) \<and>
               (if Limit inp \<le> 0 then \<not> sublist (OldStr inp) rest
                else int (length ps) \<le> Limit inp \<and>
                     (int (length ps) < Limit inp \<longrightarrow> \<not> sublist (OldStr inp) rest)) \<and>
               EditFileContent E Dir fs (Inr inp) =
                 (if ps = [] then (Inl ''old_str not found in file'', fs)
                  else (Inr (''Successfully replaced '' @ fmt_d (int (length ps)) @
                             '' occurrence(s) in '' @ Path inp),
                        fs\<lparr>files := (files fs)(Path inp \<mapsto> join_with ps (NewStr inp) rest)\<rparr>)))"
    unfolding call using replaceInFile_spec[OF assms(3), of "OldStr inp" "NewStr inp" "Limit inp" Dir]
    by blast
  ultimately show ?thesis by blast
qed

theorem replace_mode_semantics_witness:
  "(\<exists>ps rest.
     ''abxababab'' = join_with ps ''ab'' rest \<and>
     (\<forall>p\<in>set ps. first_occurrence ''ab'' p) \<and>
     int (length ps) \<le> 2 \<and> ps \<noteq> [] \<and>
     EditFileContent fragment_regexp clean_path_Dir
       \<lparr>files = [''a.txt'' \<mapsto> ''abxababab''], dirs = {}\<rparr>
       (Inr \<lparr>Path = ''a.txt'', Mode = ''replace'', OldStr = ''ab'', NewStr = ''c'',
          Pattern = [], Content = [], LineNumber = 0, Limit = 2\<rparr>) =
       (Inr (''Successfully replaced '' @ fmt_d (int (length ps)) @ '' occurrence(s) in a.txt''),
        \<lparr>files = [''a.txt'' \<mapsto> join_with ps ''c'' rest], dirs = {}\<rparr>)) \<and>
   EditFileContent fragment_regexp clean_path_Dir
     \<lparr>files = [''a.txt'' \<mapsto> ''abxababab''], dirs = {}\<rparr>
     (Inr \<lparr>Path = ''a.txt'', Mode = ''replace'', OldStr = ''ab'', NewStr = ''c'',
        Pattern = [], Content = [], LineNumber = 0, Limit = 2\<rparr>) =
     (Inr ''Successfully replaced 2 occurrence(s) in a.txt'',
      \<lparr>files = [''a.txt'' \<mapsto> ''cxcabab''], dirs = {}\<rparr>)"
proof (rule conjI)
  show "EditFileContent fragment_regexp clean_path_Dir
     \<lparr>files = [''a.txt'' \<mapsto> ''abxababab''], dirs = {}\<rparr>
     (Inr \<lparr>Path = ''a.txt'', Mode = ''replace'', OldStr = ''ab'', NewStr = ''c'',
        Pattern = [], Content = [], LineNumber = 0, Limit = 2\<rparr>) =
     (Inr ''Successfully replaced 2 occurrence(s) in a.txt'',
      \<lparr>files = [''a.txt'' \<mapsto> ''cxcabab''], dirs = {}\<rparr>)"
    by (simp add: EditFileContent_def replaceInFile_def ensureFileExists_def os_Stat_def
        os_ReadFile_def os_WriteFile_def replace_loop.simps fmt_d_def decimal.simps)
next
  show "\<exists>ps rest.
     ''abxababab'' = join_with ps ''ab'' rest \<and>
     (\<forall>p\<in>set ps. first_occurrence ''ab'' p) \<and>
     int (length ps) \<le> 2 \<and> ps \<noteq> [] \<and>
     EditFileContent fragment_regexp clean_path_Dir
       \<lparr>files = [''a.txt'' \<mapsto> ''abxababab''], dirs = {}\<rparr>
       (Inr \<lparr>Path = ''a.txt'', Mode = ''replace'', OldStr = ''ab'', NewStr = ''c'',
          Pattern = [], Content = [], LineNumber = 0, Limit = 2\<rparr>) =
       (Inr (''Successfully replaced '' @ fmt_d (int (length ps)) @ '' occurrence(s) in a.txt''),
        \<lparr>files = [''a.txt'' \<mapsto> join_with ps ''c'' rest], dirs = {}\<rparr>)"
  using replace_mode_semantics
    [of "\<lparr>Path = ''a.txt'', Mode = ''replace'', OldStr = ''ab'', NewStr = ''c'',
          Pattern = [], Content = [], LineNumber = 0, Limit = 2\<rparr>"
        "\<lparr>files = [''a.txt'' \<mapsto> ''abxababab''], dirs = {}\<rparr>"
        "''abxababab''"
        fragment_regexp
        clean_path_Dir]
    apply simp
    apply (erule exE)+
    subgoal for ps rest
      apply (rule exI[of _ ps], rule exI[of _ rest])
      apply (cases "ps = []")
       apply (auto simp: sublist_code prefix_code)
      done
    done
qed

text \<open>
  Claim C2. In every session, after any number of passes through the loop of \<open>Run\<close>
  (whatever the user, the engine, the clock and the tools do): once a reset has
  happened, the consecutive-use counter equals the number of tool dispatch attempts
  since the last reset; before the first reset nothing has been attempted; and resets
  and user reads come in pairs, a reset directly before every user read and nowhere
  else, so that there are as many resets as user reads. (A state in the middle of a
  response is the state after a response that ends there, so the statement covers every
  moment between two tool invocations.)
\<close>

theorem consecutive_counter_counts_attempts:
  assumes "st = Run e lp w n"
  shows "(EvReset \<in> set (trace st) \<longrightarrow>
            ConsecutiveToolUses (loopProtection st) = int (attempts (since_reset (trace st)))) \<and>
         (EvReset \<notin> set (trace st) \<longrightarrow> trace st = []) \<and>
         resets_match_reads (trace st) \<and>
         length (filter (\<lambda>ev. ev = EvReset) (trace st)) = length (filter is_read (trace st))"
proof -
  have inv: "run_inv st" unfolding assms by (rule run_inv_Run)
  have m: "resets_match_reads (trace st)" using inv by (rule run_inv_matched)
  from inv consider "trace st = []" | new where "run_core st new"
    by (auto simp: run_inv_def)
  then have "(EvReset \<in> set (trace st) \<longrightarrow>
            ConsecutiveToolUses (loopProtection st) = int (attempts (since_reset (trace st)))) \<and>
         (EvReset \<notin> set (trace st) \<longrightarrow> trace st = [])"
  proof cases
    case 1 then show ?thesis by simp
  next
    case 2
    then obtain ok older where "trace st = new @ EvUserRead ok # EvReset # older"
      "list_all no_input new" "ConsecutiveToolUses (loopProtection st) = int (attempts new)"
      by (auto simp: run_core_def)
    then show ?thesis by (simp add: since_no_input(2) attempts_append)
  qed
  with m matched_counts[OF m] show ?thesis by simp
qed

theorem consecutive_counter_counts_attempts_witness:
  "EvReset \<in> set (trace (Run demo_env (NewLoopProtection 0 0) () 2)) \<and>
   attempts (since_reset (trace (Run demo_env (NewLoopProtection 0 0) () 2))) = 4 \<and>
   ConsecutiveToolUses (loopProtection (Run demo_env (NewLoopProtection 0 0) () 2)) = 4 \<and>
   length (filter is_read (trace (Run demo_env (NewLoopProtection 0 0) () 2))) = 1"
proof -
  let ?st = "Run demo_env (NewLoopProtection 0 0) () 2"
  have tr: "trace ?st =
     [EvExecuted ''b'' ''read_file'', EvAttempt ''b'' ''read_file'',
      EvExecuted ''a'' ''list_files'', EvAttempt ''a'' ''list_files'',
      EvExecuted ''b'' ''read_file'', EvAttempt ''b'' ''read_file'',
      EvExecuted ''a'' ''list_files'', EvAttempt ''a'' ''list_files'',
      EvUserRead True, EvReset]"
    by code_simp
  from consecutive_counter_counts_attempts[OF refl, of demo_env "NewLoopProtection 0 0" "()" 2]
  show ?thesis by (simp add: tr since_reset_def)
qed

text \<open>
  Claim C3. In every session configured with a consecutive-use limit of 15: whenever 16
  tool invocations have been processed since the last user read, there are exactly 16,
  the newest events of the trace are the sixteenth attempt and its denial with the
  consecutive-limit error (so \<open>executeTool\<close> was not called for it), the orchestrator
  is back at reading user input (\<open>readUserInput\<close>), and if the session is still
  running its next pass either ends the session at the time limit without any event or
  starts with the reset and the user read.
\<close>

theorem sixteenth_invocation_denied:
  assumes "MaxConsecutiveToolUses lp = 15" and "st = Run e lp w n"
    and "16 \<le> attempts (since_read (trace st))"
  shows "attempts (since_read (trace st)) = 16 \<and>
         (\<exists>ident name rest.
            since_read (trace st) = EvDenied (TooManyConsecutive 16) # EvAttempt ident name # rest \<and>
            attempts rest = 15) \<and>
         readUserInput st \<and>
         (status st = Running \<longrightarrow>
            trace (Run_iteration e st) = trace st \<and> status (Run_iteration e st) = Returned None \<or>
            (\<exists>more ok. trace (Run_iteration e st) = more @ EvUserRead ok # EvReset # trace st))"
proof -
  have inv: "run_inv st" unfolding assms(2) by (rule run_inv_Run)
  have M: "MaxConsecutiveToolUses (loopProtection st) = 15"
    unfolding assms(2) using assms(1) by (simp add: Run_Max)
  from assms(3) have "trace st \<noteq> []" by (auto simp: since_read_def)
  with inv M obtain new where core: "run_core st new"
    and lim: "int (attempts new) \<le> 15 \<or>
           readUserInput st \<and> int (attempts new) = 16 \<and>
           (\<exists>ident name rest. new = EvDenied (TooManyConsecutive 16) # EvAttempt ident name # rest)"
    by (auto simp: run_inv_def)
  from core have sr: "since_read (trace st) = new"
    by (auto simp: run_core_def since_no_input(1))
  with assms(3) lim obtain ident name rest where
    r: "readUserInput st" "attempts new = 16"
    "new = EvDenied (TooManyConsecutive 16) # EvAttempt ident name # rest"
    by auto
  then have "attempts rest = 15" by simp
  with r sr next_iteration_reads[OF r(1), of e] show ?thesis by auto
qed

theorem sixteenth_invocation_denied_witness:
  "attempts (since_read (trace (Run batch_env (NewLoopProtection 0 0) () 1))) = 16 \<and>
   (\<exists>ident name rest.
      since_read (trace (Run batch_env (NewLoopProtection 0 0) () 1)) =
        EvDenied (TooManyConsecutive 16) # EvAttempt ident name # rest \<and> attempts rest = 15) \<and>
   readUserInput (Run batch_env (NewLoopProtection 0 0) () 1)"
proof -
  have m: "MaxConsecutiveToolUses (NewLoopProtection 0 0) = 15" by (simp add: NewLoopProtection_def)
  have a: "16 \<le> attempts (since_read (trace (Run batch_env (NewLoopProtection 0 0) () 1)))"
    by code_simp
  from sixteenth_invocation_denied[OF m refl a] show ?thesis by blast
qed

text \<open>
  Claim C4, as amended. For every assistant response processed by
  \<open>processToolUsages\<close> without a governor violation: if the response has at least one
  tool invocation, exactly one user message is appended to the conversation, holding one
  tool result per invocation, with the ids of the invocations in their order, and the
  loop continues without user input; if it has none, nothing is appended and user input
  is read next. When a violation occurs, the function returns the error, user input is
  read next, and nothing is appended to the conversation.
\<close>

theorem tool_results_turn:
  assumes "processToolUsages e message st = ((nxt, err), st')"
  shows "(err = None \<and> tool_use_ids message \<noteq> [] \<longrightarrow>
            \<not> nxt \<and>
            (\<exists>results. conversation st' = conversation st @ [MessageParam User results] \<and>
               map result_id results = map Some (tool_use_ids message))) \<and>
         (err = None \<and> tool_use_ids message = [] \<longrightarrow> nxt \<and> conversation st' = conversation st) \<and>
         (err \<noteq> None \<longrightarrow> nxt \<and> conversation st' = conversation st)"
proof -
  obtain err' rs' h' st1 where pc: "processContent e message [] False st = (err', rs', h', st1)"
    by (cases "processContent e message [] False st") auto
  note fr = processContent_frame[OF pc]
  show ?thesis
  proof (cases err')
    case None
    from processContent_results[OF pc[unfolded None]]
    have "map result_id rs' = map Some (tool_use_ids message)" "h' = (tool_use_ids message \<noteq> [])"
      by auto
    with assms pc None fr show ?thesis
      by (auto simp: processToolUsages_def split: if_splits)
  next
    case (Some er)
    with assms pc fr show ?thesis by (auto simp: processToolUsages_def)
  qed
qed

theorem tool_results_turn_witness:
  "\<exists>results st'.
     processToolUsages demo_env
       [TextBlock ''working'', ToolUseBlock ''a'' ''list_files'' ''{}'',
        ToolUseBlock ''b'' ''read_file'' ''{}''] demo_state = ((False, None), st') \<and>
     conversation st' = conversation demo_state @ [MessageParam User results] \<and>
     map result_id results = [Some ''a'', Some ''b'']"
proof -
  let ?msg = "[TextBlock ''working'', ToolUseBlock ''a'' ''list_files'' ''{}'',
        ToolUseBlock ''b'' ''read_file'' ''{}'']"
  have f: "fst (processToolUsages demo_env ?msg demo_state) = (False, None)" by code_simp
  then obtain st' where r: "processToolUsages demo_env ?msg demo_state = ((False, None), st')"
    by (cases "processToolUsages demo_env ?msg demo_state") auto
  from tool_results_turn[OF r] r show ?thesis by simp
qed

text \<open>
  Claim C4 as stated includes a violation partway through the batch. There no
  result is appended at all: with the default limits, a response with five invocations
  of the same tool executes the first four, denies the fifth with the same-tool error
  and leaves the conversation as it was.
\<close>

theorem violation_drops_results_counterexample:
  "tool_use_ids five_calls = [''a'', ''b'', ''c'', ''d'', ''e''] \<and>
   fst (processToolUsages demo_env five_calls demo_state) =
     (True, Some (TooManySameTool ''list_files'' 5)) \<and>
   conversation (snd (processToolUsages demo_env five_calls demo_state)) =
     conversation demo_state \<and>
   filter (\<lambda>ev. \<not> is_attempt ev) (trace (snd (processToolUsages demo_env five_calls demo_state))) =
     [EvDenied (TooManySameTool ''list_files'' 5), EvExecuted ''d'' ''list_files'',
      EvExecuted ''c'' ''list_files'', EvExecuted ''b'' ''list_files'',
      EvExecuted ''a'' ''list_files'', EvUserRead True, EvReset]"
  by code_simp

text \<open>
  Claim C5, as amended. Let the configured same-tool maximum be at least 2, let a
  sequence of tool invocations have been admitted since the last reset, and let the next
  invocation pass the consecutive-use and the rate check. Then the previous tool name the
  governor holds is the name of the last admitted invocation; the streak counter becomes
  1 when the name differs from it and grows by 1 when it is the same, so that it is the
  number of immediate repetitions of the name; the streak was below the maximum before
  the call; and the same-tool denial fires exactly when the streak reaches the maximum,
  the call being admitted exactly when the streak stays below it.
\<close>

theorem same_tool_streak:
  assumes "LastToolName lp0 = []" and "SameToolCallCount lp0 = 0"
    and "2 \<le> MaxSameToolCalls lp0"
    and "allowed_calls lp0 cs = Some lp"
    and "loopProtectionCheck lp now1 now2 name = (res, lp')"
    and "reaches_same_tool_check res"
  shows "SameToolCallCount lp' = int (streak (map (\<lambda>c. snd (snd c)) cs @ [name])) \<and>
         LastToolName lp' = name \<and>
         LastToolName lp = (if cs = [] then [] else snd (snd (last cs))) \<and>
         (if LastToolName lp = name then SameToolCallCount lp' = SameToolCallCount lp + 1
          else SameToolCallCount lp' = 1) \<and>
         SameToolCallCount lp < MaxSameToolCalls lp0 \<and>
         SameToolCallCount lp' \<le> MaxSameToolCalls lp0 \<and>
         (res = Some (TooManySameTool name (MaxSameToolCalls lp0)) \<longleftrightarrow>
            SameToolCallCount lp' = MaxSameToolCalls lp0) \<and>
         (res = None \<longleftrightarrow> SameToolCallCount lp' < MaxSameToolCalls lp0)"
proof -
  note inv = allowed_calls_streak[OF assms(1-4)]
  note st = check_same_tool[OF assms(5,6)]
  let ?names = "map (\<lambda>c. snd (snd c)) cs"
  have last: "cs \<noteq> [] \<Longrightarrow> last ?names = LastToolName lp" using inv by (simp add: last_map)
  show ?thesis
  proof (cases "LastToolName lp = name")
    case True
    have cnt: "SameToolCallCount lp' = SameToolCallCount lp + 1" using st(3)[OF True] .
    have "streak (?names @ [name]) = Suc (streak ?names)"
    proof (cases "cs = []")
      case True then show ?thesis by (simp add: streak_def)
    next
      case False then show ?thesis using last True by (simp add: streak_snoc)
    qed
    with cnt inv st(1,2,5) st(6)[OF True] True show ?thesis by auto
  next
    case False
    have cnt: "SameToolCallCount lp' = 1" "res = None" using st(4)[OF False] by simp_all
    have "streak (?names @ [name]) = 1" using last False by (auto simp: streak_snoc)
    with cnt inv st(1) False assms(3) show ?thesis by auto
  qed
qed

theorem same_tool_streak_witness:
  "allowed_calls (NewLoopProtection 0 0)
     [(1, 1, ''list_files''), (2, 2, ''list_files''), (3, 3, ''list_files''), (4, 4, ''list_files'')]
     \<noteq> None \<and>
   fst (loopProtectionCheck
          (the (allowed_calls (NewLoopProtection 0 0)
             [(1, 1, ''list_files''), (2, 2, ''list_files''), (3, 3, ''list_files''),
              (4, 4, ''list_files'')])) 5 5 ''list_files'') =
     Some (TooManySameTool ''list_files'' 5) \<and>
   SameToolCallCount (snd (loopProtectionCheck
          (the (allowed_calls (NewLoopProtection 0 0)
             [(1, 1, ''list_files''), (2, 2, ''list_files''), (3, 3, ''list_files''),
              (4, 4, ''list_files'')])) 5 5 ''list_files'')) = 5"
proof -
  let ?cs = "[(1, 1, ''list_files''), (2, 2, ''list_files''), (3, 3, ''list_files''),
              (4, 4, ''list_files'')] :: (int \<times> int \<times> string) list"
  let ?lp0 = "NewLoopProtection 0 0"
  have z: "LastToolName ?lp0 = []" "SameToolCallCount ?lp0 = 0" "2 \<le> MaxSameToolCalls ?lp0"
    "MaxSameToolCalls ?lp0 = 5"
    by (simp_all add: NewLoopProtection_def)
  have al: "allowed_calls ?lp0 ?cs \<noteq> None" by code_simp
  then obtain lp where lp: "allowed_calls ?lp0 ?cs = Some lp" by auto
  obtain res lp' where chk: "loopProtectionCheck lp 5 5 ''list_files'' = (res, lp')"
    by (cases "loopProtectionCheck lp 5 5 ''list_files''") auto
  have "reaches_same_tool_check (fst (loopProtectionCheck (the (allowed_calls ?lp0 ?cs)) 5 5 ''list_files''))"
    by code_simp
  then have r: "reaches_same_tool_check res" using lp chk by simp
  have s: "streak (map (\<lambda>c. snd (snd c)) ?cs @ [''list_files'']) = 5" by (simp add: streak_def)
  from same_tool_streak[OF z(1-3) lp chk r] s z(4) lp chk show ?thesis by simp
qed

text \<open>
  Claim C5 as stated fails in two ways. With a maximum of 1, the first call of a tool
  brings the streak to the maximum and is admitted: the check is made only on a repeated
  name. And an invocation denied by the consecutive-use check (here the sixteenth, after
  fifteen admitted ones) is counted by the governor but leaves the streak and the
  previous tool name as they were, although its name differs.
\<close>

theorem same_tool_streak_counterexample:
  "loopProtectionCheck ((NewLoopProtection 0 0)\<lparr>MaxSameToolCalls := 1\<rparr>) 1 1 ''list_files'' =
     (None, (NewLoopProtection 0 0)\<lparr>MaxSameToolCalls := 1, ConsecutiveToolUses := 1,
         ToolUseCount := 1, LastToolName := ''list_files'', SameToolCallCount := 1\<rparr>) \<and>
   map_option
     (\<lambda>lp. (LastToolName lp, SameToolCallCount lp,
            fst (loopProtectionCheck lp 1 1 ''read_file''),
            LastToolName (snd (loopProtectionCheck lp 1 1 ''read_file'')),
            SameToolCallCount (snd (loopProtectionCheck lp 1 1 ''read_file''))))
     (allowed_calls (NewLoopProtection 0 0) fifteen_calls) =
     Some (''list_files'', 3, Some (TooManyConsecutive 16), ''list_files'', 3)"
proof -
  have a: "loopProtectionCheck ((NewLoopProtection 0 0)\<lparr>MaxSameToolCalls := 1\<rparr>) 1 1 ''list_files'' =
     (None, (NewLoopProtection 0 0)\<lparr>MaxSameToolCalls := 1, ConsecutiveToolUses := 1,
         ToolUseCount := 1, LastToolName := ''list_files'', SameToolCallCount := 1\<rparr>)"
    by (simp add: loopProtectionCheck_def NewLoopProtection_def Minute_def)
  have b: "map_option
     (\<lambda>lp. (LastToolName lp, SameToolCallCount lp,
            fst (loopProtectionCheck lp 1 1 ''read_file''),
            LastToolName (snd (loopProtectionCheck lp 1 1 ''read_file'')),
            SameToolCallCount (snd (loopProtectionCheck lp 1 1 ''read_file''))))
     (allowed_calls (NewLoopProtection 0 0) fifteen_calls) =
     Some (''list_files'', 3, Some (TooManyConsecutive 16), ''list_files'', 3)"
    by code_simp
  from a b show ?thesis by (rule conjI)
qed

text \<open>
  Claim C6. For every file content and every non-empty \<open>old_str\<close> different from
  \<open>new_str\<close>, a \<open>replace\<close> call with limit 0 and the same call with the limit set to
  the number \<open>k\<close> of non-overlapping occurrences of \<open>old_str\<close> in the file
  (\<open>strings.Count\<close>) have the same outcome: the same result text and the same file
  system, hence a byte-identical file.
\<close>

theorem replace_limit_zero_is_limit_count:
  assumes "Mode inp = ''replace''" and "Path inp \<noteq> []"
    and "files fs (Path inp) = Some content"
    and "OldStr inp \<noteq> []" and "OldStr inp \<noteq> NewStr inp"
  shows "EditFileContent E Dir fs (Inr (inp\<lparr>Limit := 0\<rparr>)) =
         EditFileContent E Dir fs
           (Inr (inp\<lparr>Limit := int (strings_Count content (OldStr inp))\<rparr>))"
  using assms replaceInFile_limit_count[OF assms(3,4,5), of Dir]
  by (simp add: EditFileContent_def)

theorem replace_limit_zero_is_limit_count_witness:
  "strings_Count ''abxababab'' ''ab'' = 4 \<and>
   EditFileContent fragment_regexp clean_path_Dir
     \<lparr>files = [''a.txt'' \<mapsto> ''abxababab''], dirs = {}\<rparr>
     (Inr \<lparr>Path = ''a.txt'', Mode = ''replace'', OldStr = ''ab'', NewStr = ''c'',
          Pattern = [], Content = [], LineNumber = 0, Limit = 0\<rparr>) =
   EditFileContent fragment_regexp clean_path_Dir
     \<lparr>files = [''a.txt'' \<mapsto> ''abxababab''], dirs = {}\<rparr>
     (Inr \<lparr>Path = ''a.txt'', Mode = ''replace'', OldStr = ''ab'', NewStr = ''c'',
          Pattern = [], Content = [], LineNumber = 0, Limit = 4\<rparr>)"
proof -
  have k: "strings_Count ''abxababab'' ''ab'' = 4" by (simp add: strings_Count.simps)
  show ?thesis
    using replace_limit_zero_is_limit_count
      [of "\<lparr>Path = ''a.txt'', Mode = ''replace'', OldStr = ''ab'', NewStr = ''c'',
          Pattern = [], Content = [], LineNumber = 0, Limit = 7\<rparr>"
        "\<lparr>files = [''a.txt'' \<mapsto> ''abxababab''], dirs = {}\<rparr>" "''abxababab''"
        fragment_regexp clean_path_Dir]
    by (simp add: k)
qed

text \<open>
  Claim C7, as amended. For every existing file and every line number \<open>L\<close> with
  \<open>1 \<le> L \<le> lineCount + 1\<close> (\<open>lineCount\<close> the number of pieces \<open>strings.Split\<close> cuts
  the content into at the newline), \<open>insert_at_line\<close> succeeds, and the lines of the new
  file are the original lines before \<open>L\<close>, then the lines of the inserted content, then
  the original lines from \<open>L\<close> on. So the original line \<open>L\<close> is found at line
  \<open>L + n\<close>, where \<open>n\<close> is the number of lines of the inserted content, which is line
  \<open>L + 1\<close> when the content has no newline. (Lists are indexed from 0: line \<open>L\<close> is
  element \<open>L - 1\<close>.) For \<open>L < 1\<close> and for \<open>L > lineCount + 1\<close> the call fails and the
  file system is unchanged.
\<close>

theorem insert_at_line_semantics:
  assumes "Mode inp = ''insert_at_line''" and "Path inp \<noteq> []"
    and "files fs (Path inp) = Some body"
  shows "(1 \<le> LineNumber inp \<and>
          LineNumber inp \<le> int (length (strings_Split body [CHR 0x0A])) + 1 \<longrightarrow>
            (\<exists>body'.
               EditFileContent E Dir fs (Inr inp) =
                 (Inr (''Successfully inserted content at line '' @ fmt_d (LineNumber inp) @
                       '' in '' @ Path inp),
                  fs\<lparr>files := (files fs)(Path inp \<mapsto> body')\<rparr>) \<and>
               strings_Split body' [CHR 0x0A] =
                 take (nat (LineNumber inp - 1)) (strings_Split body [CHR 0x0A]) @
                 strings_Split (Content inp) [CHR 0x0A] @
                 drop (nat (LineNumber inp - 1)) (strings_Split body [CHR 0x0A]) \<and>
               (LineNumber inp \<le> int (length (strings_Split body [CHR 0x0A])) \<longrightarrow>
                  strings_Split body' [CHR 0x0A] !
                    (nat (LineNumber inp - 1) + length (strings_Split (Content inp) [CHR 0x0A])) =
                  strings_Split body [CHR 0x0A] ! nat (LineNumber inp - 1)) \<and>
               (LineNumber inp \<le> int (length (strings_Split body [CHR 0x0A])) \<and>
                CHR 0x0A \<notin> set (Content inp) \<longrightarrow>
                  strings_Split body' [CHR 0x0A] ! nat (LineNumber inp) =
                  strings_Split body [CHR 0x0A] ! nat (LineNumber inp - 1)))) \<and>
         (LineNumber inp < 1 \<longrightarrow>
            EditFileContent E Dir fs (Inr inp) = (Inl ''line number must be at least 1'', fs)) \<and>
         (LineNumber inp > int (length (strings_Split body [CHR 0x0A])) + 1 \<longrightarrow>
            EditFileContent E Dir fs (Inr inp) =
              (Inl (''line number '' @ fmt_d (LineNumber inp) @ '' exceeds file length ('' @
                    fmt_d (int (length (strings_Split body [CHR 0x0A]))) @ '' lines)''), fs))"
proof -
  let ?L = "LineNumber inp"
  let ?lines = "strings_Split body [CHR 0x0A]"
  let ?ins = "strings_Split (Content inp) [CHR 0x0A]"
  have call: "EditFileContent E Dir fs (Inr inp) =
      insertAtLine Dir fs (Path inp) (Content inp) ?L"
    using assms(1,2) by (simp add: EditFileContent_def)
  have low: "?L < 1 \<longrightarrow>
      EditFileContent E Dir fs (Inr inp) = (Inl ''line number must be at least 1'', fs)"
    by (simp add: call insertAtLine_def)
  have high: "?L > int (length ?lines) + 1 \<longrightarrow>
      EditFileContent E Dir fs (Inr inp) =
        (Inl (''line number '' @ fmt_d ?L @ '' exceeds file length ('' @
              fmt_d (int (length ?lines)) @ '' lines)''), fs)"
    using assms(3)
    by (simp add: call insertAtLine_def ensureFileExists_existing os_ReadFile_existing Let_def)
  have mid: "(\<exists>body'.
       EditFileContent E Dir fs (Inr inp) =
         (Inr (''Successfully inserted content at line '' @ fmt_d ?L @ '' in '' @ Path inp),
          fs\<lparr>files := (files fs)(Path inp \<mapsto> body')\<rparr>) \<and>
       strings_Split body' [CHR 0x0A] =
         take (nat (?L - 1)) ?lines @ ?ins @ drop (nat (?L - 1)) ?lines \<and>
       (?L \<le> int (length ?lines) \<longrightarrow>
          strings_Split body' [CHR 0x0A] ! (nat (?L - 1) + length ?ins) = ?lines ! nat (?L - 1)) \<and>
       (?L \<le> int (length ?lines) \<and> CHR 0x0A \<notin> set (Content inp) \<longrightarrow>
          strings_Split body' [CHR 0x0A] ! nat ?L = ?lines ! nat (?L - 1)))"
    if L: "1 \<le> ?L" "?L \<le> int (length ?lines) + 1"
  proof -
    from insertAtLine_ok[OF assms(3) L, of Dir "Content inp"]
    obtain body' where b: "insertAtLine Dir fs (Path inp) (Content inp) ?L =
           (Inr (''Successfully inserted content at line '' @ fmt_d ?L @ '' in '' @ Path inp),
            fs\<lparr>files := (files fs)(Path inp \<mapsto> body')\<rparr>)"
      and sp: "strings_Split body' [CHR 0x0A] =
           take (nat (?L - 1)) ?lines @ ?ins @ drop (nat (?L - 1)) ?lines"
      by blast
    have idx: "strings_Split body' [CHR 0x0A] ! (nat (?L - 1) + length ?ins) = ?lines ! nat (?L - 1)"
      if "?L \<le> int (length ?lines)"
    proof -
      have len: "length (take (nat (?L - 1)) ?lines) = nat (?L - 1)" using that L by simp
      have "nat (?L - 1) < length ?lines" using that L by linarith
      then have "drop (nat (?L - 1)) ?lines ! 0 = ?lines ! nat (?L - 1)"
        by (simp add: hd_drop_conv_nth hd_conv_nth[symmetric])
      then show ?thesis
        using len by (simp add: sp nth_append)
    qed
    have one: "strings_Split body' [CHR 0x0A] ! nat ?L = ?lines ! nat (?L - 1)"
      if "?L \<le> int (length ?lines)" "CHR 0x0A \<notin> set (Content inp)"
    proof -
      have "length ?ins = 1" using that(2) by (simp add: Split_no_sep)
      moreover have "nat (?L - 1) + 1 = nat ?L" using L by simp
      ultimately show ?thesis using idx[OF that(1)] by simp
    qed
    show ?thesis using b sp idx one unfolding call by blast
  qed
  show ?thesis using low high mid by blast
qed

theorem insert_at_line_semantics_witness:
  "\<exists>body'.
     EditFileContent fragment_regexp clean_path_Dir
       \<lparr>files = [''a.txt'' \<mapsto> ''one\<newline>two''], dirs = {}\<rparr>
       (Inr \<lparr>Path = ''a.txt'', Mode = ''insert_at_line'', OldStr = [], NewStr = [],
            Pattern = [], Content = ''new'', LineNumber = 2, Limit = 0\<rparr>) =
       (Inr ''Successfully inserted content at line 2 in a.txt'',
        \<lparr>files = [''a.txt'' \<mapsto> body'], dirs = {}\<rparr>) \<and>
     strings_Split body' [CHR 0x0A] = [''one'', ''new'', ''two''] \<and>
     strings_Split body' [CHR 0x0A] ! 2 = ''two''"
proof -
  have s: "strings_Split ''one\<newline>two'' [CHR 0x0A] = [''one'', ''two'']"
    "strings_Split ''new'' [CHR 0x0A] = [''new'']"
    by (simp_all add: strings_Split.simps)
  show ?thesis
    using insert_at_line_semantics
      [of "\<lparr>Path = ''a.txt'', Mode = ''insert_at_line'', OldStr = [], NewStr = [],
            Pattern = [], Content = ''new'', LineNumber = 2, Limit = 0\<rparr>"
        "\<lparr>files = [''a.txt'' \<mapsto> ''one\<newline>two''], dirs = {}\<rparr>" "''one\<newline>two''"
        fragment_regexp clean_path_Dir]
    by (simp add: s fmt_d_def decimal.simps) blast
qed

text \<open>
  Claim C7 as stated (the original line \<open>L\<close> is at line \<open>L + 1\<close> afterwards) fails for
  content with a newline: inserting the two lines \<open>x\<close>, \<open>y\<close> at line 1 of the file
  \<open>a\<close>, \<open>b\<close> puts \<open>y\<close>, not the original first line \<open>a\<close>, at line 2.
\<close>

theorem insert_multiline_counterexample:
  "EditFileContent fragment_regexp clean_path_Dir
     \<lparr>files = [''a.txt'' \<mapsto> ''a\<newline>b''], dirs = {}\<rparr>
     (Inr \<lparr>Path = ''a.txt'', Mode = ''insert_at_line'', OldStr = [], NewStr = [],
          Pattern = [], Content = ''x\<newline>y'', LineNumber = 1, Limit = 0\<rparr>) =
     (Inr ''Successfully inserted content at line 1 in a.txt'',
      \<lparr>files = [''a.txt'' \<mapsto> ''x\<newline>y\<newline>a\<newline>b''], dirs = {}\<rparr>) \<and>
   strings_Split ''a\<newline>b'' [CHR 0x0A] ! 0 = ''a'' \<and>
   strings_Split ''x\<newline>y\<newline>a\<newline>b'' [CHR 0x0A] ! 1 = ''y'' \<and>
   strings_Split ''x\<newline>y\<newline>a\<newline>b'' [CHR 0x0A] ! 1 \<noteq> strings_Split ''a\<newline>b'' [CHR 0x0A] ! 0"
  by (simp add: EditFileContent_def insertAtLine_def ensureFileExists_def os_Stat_def
      os_ReadFile_def os_WriteFile_def strings_Split.simps fmt_d_def decimal.simps)

text \<open>
  Claim C8, as amended. For every existing file with content \<open>C\<close>, calling the
  \<open>file_editor\<close> tool in mode \<open>create\<close> with any non-empty content returns the
  non-error notice that the file already exists and leaves the file system, hence the
  content \<open>C\<close>, unchanged.
\<close>

theorem create_existing_file:
  assumes "Mode inp = ''create''" and "Path inp \<noteq> []"
    and "files fs (Path inp) = Some C" and "Content inp \<noteq> []"
  shows "EditFileContent E Dir fs (Inr inp) =
           (Inr (''File '' @ Path inp @
                 '' already exists. Use append, prepend, or replace modes to modify it.''), fs)"
  using assms by (simp add: EditFileContent_def createFile_def os_Stat_def)

theorem create_existing_file_witness:
  "EditFileContent fragment_regexp clean_path_Dir
     \<lparr>files = [''a.txt'' \<mapsto> ''old text''], dirs = {}\<rparr>
     (Inr \<lparr>Path = ''a.txt'', Mode = ''create'', OldStr = [], NewStr = [],
          Pattern = [], Content = ''new text'', LineNumber = 0, Limit = 0\<rparr>) =
   (Inr ''File a.txt already exists. Use append, prepend, or replace modes to modify it.'',
    \<lparr>files = [''a.txt'' \<mapsto> ''old text''], dirs = {}\<rparr>)"
  using create_existing_file
      [of "\<lparr>Path = ''a.txt'', Mode = ''create'', OldStr = [], NewStr = [],
          Pattern = [], Content = ''new text'', LineNumber = 0, Limit = 0\<rparr>"
        "\<lparr>files = [''a.txt'' \<mapsto> ''old text''], dirs = {}\<rparr>" "''old text''"
        fragment_regexp clean_path_Dir]
  by simp

text \<open>
  Claim C8 as stated (any content) fails for the empty content: \<open>EditFileContent\<close>
  rejects it with an error before \<open>createFile\<close> looks at the disk.
\<close>

theorem create_empty_content_counterexample:
  "files \<lparr>files = [''a.txt'' \<mapsto> ''old text''], dirs = {}\<rparr> ''a.txt'' = Some ''old text'' \<and>
   EditFileContent fragment_regexp clean_path_Dir
     \<lparr>files = [''a.txt'' \<mapsto> ''old text''], dirs = {}\<rparr>
     (Inr \<lparr>Path = ''a.txt'', Mode = ''create'', OldStr = [], NewStr = [],
          Pattern = [], Content = [], LineNumber = 0, Limit = 0\<rparr>) =
   (Inl ''cannot create an empty file, content is required'',
    \<lparr>files = [''a.txt'' \<mapsto> ''old text''], dirs = {}\<rparr>)"
  by (simp add: EditFileContent_def)

text \<open>
  Claim C9. \<open>regex_replace\<close> with pattern \<open>foo\d+\<close>, replacement \<open>bar\<close> and limit 2 on a
  file with content \<open>foo1 foo2 foo3\<close> rewrites the file to \<open>bar bar foo3\<close> and reports 2
  replacements. The hypotheses on the engine say what Go's \<open>regexp\<close> does with this
  pattern: it compiles, its matches in the content are \<open>foo1\<close>, \<open>foo2\<close>, \<open>foo3\<close> at
  offsets 0, 5 and 10, it matches the whole of \<open>foo1\<close> and of \<open>foo2\<close>, and the template
  \<open>bar\<close> expands to itself.
\<close>

theorem regex_replace_scenario:
  assumes "Mode inp = ''regex_replace''" and "Path inp \<noteq> []"
    and "Pattern inp = ''foo'' @ [CHR 0x5C] @ ''d+''" and "NewStr inp = ''bar''"
    and "Limit inp = 2"
    and "files fs (Path inp) = Some ''foo1 foo2 foo3''"
    and "Compile E (Pattern inp) = Inr re"
    and "FindAllStringIndex E re ''foo1 foo2 foo3'' = [(0, 4), (5, 9), (10, 14)]"
    and "FindAllStringIndex E re ''foo1'' = [(0, 4)]"
    and "FindAllStringIndex E re ''foo2'' = [(0, 4)]"
    and "Expand E re ''bar'' ''foo1'' (0, 4) = ''bar''"
    and "Expand E re ''bar'' ''foo2'' (0, 4) = ''bar''"
  shows "EditFileContent E Dir fs (Inr inp) =
           (Inr (''Successfully replaced 2 occurrence(s) in '' @ Path inp),
            fs\<lparr>files := (files fs)(Path inp \<mapsto> ''bar bar foo3'')\<rparr>)"
proof -
  have one: "regexp_ReplaceAllString E re ''foo1'' ''bar'' = ''bar''"
    "regexp_ReplaceAllString E re ''foo2'' ''bar'' = ''bar''"
    using assms(9-12) by (simp_all add: regexp_ReplaceAllString_def)
  have "regexp_ReplaceAllStringFunc E re ''foo1 foo2 foo3''
          (\<lambda>match count. if count < (2::int)
             then (regexp_ReplaceAllString E re match ''bar'', count + 1)
             else (match, count)) 0 = (''bar bar foo3'', 2)"
    using assms(8) one by (simp add: regexp_ReplaceAllStringFunc_def)
  then show ?thesis
    using assms(1-7)
    by (simp add: EditFileContent_def regexReplaceInFile_def ensureFileExists_existing
        os_ReadFile_existing os_WriteFile_def fmt_d_def decimal.simps)
qed

theorem regex_replace_scenario_witness:
  "EditFileContent fragment_regexp clean_path_Dir
     \<lparr>files = [''a.txt'' \<mapsto> ''foo1 foo2 foo3''], dirs = {}\<rparr>
     (Inr \<lparr>Path = ''a.txt'', Mode = ''regex_replace'', OldStr = [], NewStr = ''bar'',
          Pattern = ''foo'' @ [CHR 0x5C] @ ''d+'', Content = [], LineNumber = 0, Limit = 2\<rparr>) =
   (Inr ''Successfully replaced 2 occurrence(s) in a.txt'',
    \<lparr>files = [''a.txt'' \<mapsto> ''bar bar foo3''], dirs = {}\<rparr>)"
proof -
  let ?re = "[(Lit CHR ''f'', Once), (Lit CHR ''o'', Once), (Lit CHR ''o'', Once), (Digit, Plus)]"
  have c: "Compile fragment_regexp (''foo'' @ [CHR 0x5C] @ ''d+'') = Inr ?re"
    by (simp add: fragment_regexp_def)
  have m: "FindAllStringIndex fragment_regexp ?re ''foo1 foo2 foo3'' = [(0, 4), (5, 9), (10, 14)]"
    "FindAllStringIndex fragment_regexp ?re ''foo1'' = [(0, 4)]"
    "FindAllStringIndex fragment_regexp ?re ''foo2'' = [(0, 4)]"
    by code_simp+
  have e: "Expand fragment_regexp ?re ''bar'' ''foo1'' (0, 4) = ''bar''"
    "Expand fragment_regexp ?re ''bar'' ''foo2'' (0, 4) = ''bar''"
    by (simp_all add: fragment_regexp_def)
  show ?thesis
    using regex_replace_scenario
      [of "\<lparr>Path = ''a.txt'', Mode = ''regex_replace'', OldStr = [], NewStr = ''bar'',
          Pattern = ''foo'' @ [CHR 0x5C] @ ''d+'', Content = [], LineNumber = 0, Limit = 2\<rparr>"
        "\<lparr>files = [''a.txt'' \<mapsto> ''foo1 foo2 foo3''], dirs = {}\<rparr>"
        fragment_regexp ?re clean_path_Dir] c m e
    by simp
qed



end
